theory Spec2Isabelle
  imports Complex_Main "HOL-Library.Sublist" "HOL-Library.Multiset"
begin

section \<open>Python values shared by the modules\<close>

text \<open>
  Exceptions of the Python source are values: a function that can raise returns
  \<open>error + 'a\<close>, with \<open>Inl\<close> the exception.
\<close>

datatype error = ValueError | IndexError | AssertionError | ZeroDivisionError

text \<open>
  A loop whose body may raise: the bodies' results are taken in order and the first
  exception ends the loop.
\<close>

fun sequence :: "(error + 'a list) list \<Rightarrow> error + 'a list" where
  "sequence [] = Inr []"
| "sequence (Inl e # rs) = Inl e"
| "sequence (Inr xs # rs) = (case sequence rs of Inl e \<Rightarrow> Inl e | Inr ys \<Rightarrow> Inr (xs @ ys))"

text \<open>
  A function that may raise, followed by a computation on its result.
\<close>

definition on_results :: "('a \<Rightarrow> 'b) \<Rightarrow> error + 'a \<Rightarrow> error + 'b" where
  "on_results f r = (case r of Inl e \<Rightarrow> Inl e | Inr x \<Rightarrow> Inr (f x))"

text \<open>
  \<^verbatim>\<open>xs[:k]\<close>: a negative bound counts from the end of the list.
\<close>

definition py_slice_to :: "int \<Rightarrow> 'a list \<Rightarrow> 'a list" where
  "py_slice_to k xs = (if k < 0 then take (nat (int (length xs) + k)) xs else take (nat k) xs)"

text \<open>
  \<^verbatim>\<open>xs[i]\<close>: a negative index counts from the end, an index out of range raises.
\<close>

definition py_index :: "'a list \<Rightarrow> int \<Rightarrow> error + 'a" where
  "py_index xs i =
     (if 0 \<le> i \<and> i < int (length xs) then Inr (xs ! nat i)
      else if i < 0 \<and> - int (length xs) \<le> i then Inr (xs ! nat (int (length xs) + i))
      else Inl IndexError)"

section \<open>Strings\<close>

text \<open>
  A character is a code point below 256. \<open>is_space\<close> is the whitespace that
  \<^verbatim>\<open>str.strip()\<close> removes in that range.
\<close>

definition NL :: char where
  "NL = CHR 0x0A"

definition is_space :: "char \<Rightarrow> bool" where
  "is_space c \<longleftrightarrow> c \<in> set [CHR 0x09, CHR 0x0A, CHR 0x0B, CHR 0x0C, CHR 0x0D,
                              CHR 0x1C, CHR 0x1D, CHR 0x1E, CHR 0x1F, CHR 0x20,
                              CHR 0x85, CHR 0xA0]"

definition strip :: "string \<Rightarrow> string" where
  "strip s = rev (dropWhile is_space (rev (dropWhile is_space s)))"

text \<open>
  \<^verbatim>\<open>text.split(separator)\<close> for a non-empty separator: the pieces between the
  non-overlapping occurrences of the separator, found from the left. \<open>cur\<close> is the
  piece being read, reversed. The chunker calls it under \<^verbatim>\<open>if separator:\<close> only.
\<close>

fun split_from :: "string \<Rightarrow> string \<Rightarrow> string \<Rightarrow> string list" where
  "split_from sep cur [] = [rev cur]"
| "split_from sep cur (c # cs) =
     (if take (length sep) (c # cs) = sep
      then rev cur # split_from sep [] (drop (length sep - 1) cs)
      else split_from sep (c # cur) cs)"

definition str_split :: "string \<Rightarrow> string \<Rightarrow> string list" where
  "str_split sep s = split_from sep [] s"

text \<open>
  \<^verbatim>\<open>separator.join(pieces)\<close>, to say what the pieces of a split are pieces of.
\<close>

fun join :: "string \<Rightarrow> string list \<Rightarrow> string" where
  "join sep [] = []"
| "join sep [p] = p"
| "join sep (p # q # ps) = p @ sep @ join sep (q # ps)"

section \<open>The recursive chunker (src/core/chunker.py)\<close>

text \<open>
  \<^verbatim>\<open>[text[i:i+chunk_size] for i in range(0, len(text), chunk_size)]\<close> for a positive step.
\<close>

function windows :: "nat \<Rightarrow> string \<Rightarrow> string list" where
  "windows n s = (if n = 0 \<or> s = [] then [] else take n s # windows n (drop n s))"
  by pat_completeness auto
termination
  by (relation "measure (\<lambda>(n, s). length s)") auto

declare windows.simps [simp del]

text \<open>
  The same comprehension for any integer step: \<^verbatim>\<open>range\<close> raises ValueError on a
  zero step and is empty on a negative one.
\<close>

definition char_windows :: "int \<Rightarrow> string \<Rightarrow> error + string list" where
  "char_windows chunk_size s =
     (if chunk_size = 0 then Inl ValueError
      else if chunk_size < 0 then Inr []
      else Inr (windows (nat chunk_size) s))"

text \<open>
  The tokenizer is tiktoken's \<^verbatim>\<open>cl100k_base\<close> encoding, which is not in src/: it is
  the parameter \<open>encode\<close> of the chunker, from a string to its token ids.
  \<^verbatim>\<open>encoding.encode(text)\<close> raises ValueError on a text that spells a special token
  (\<^verbatim>\<open><|endoftext|>\<close>), so the parameter returns an exception or the tokens.
\<close>

type_synonym tokenizer = "string \<Rightarrow> error + nat list"

text \<open>\<open>_split_recursive\<close>\<close>

fun split_recursive :: "tokenizer \<Rightarrow> int \<Rightarrow> string \<Rightarrow> string list \<Rightarrow> error + string list" where
  "split_recursive encode chunk_size txt [] = Inr (if strip txt \<noteq> [] then [txt] else [])"
| "split_recursive encode chunk_size txt (separator # remaining_seps) =
     (if strip txt = [] then Inr []
      else if separator = [] then char_windows chunk_size txt
      else sequence (map (\<lambda>split.
             if strip split = [] then Inr []
             else case encode split of
                    Inl e \<Rightarrow> Inl e
                  | Inr tokens \<Rightarrow>
                      if int (length tokens) \<le> chunk_size then Inr [split]
                      else split_recursive encode chunk_size split remaining_seps)
           (str_split separator txt)))"

record chunk =
  chunk_id :: nat
  text_of :: string
  token_count :: nat
  start_pos :: nat
  end_pos :: nat

text \<open>
  The loop over \<^verbatim>\<open>enumerate(raw_chunks)\<close>: \<open>i\<close> is the index in the raw list,
  \<open>position\<close> the accumulated length of the trimmed texts kept so far.
\<close>

fun build_chunks :: "tokenizer \<Rightarrow> nat \<Rightarrow> nat \<Rightarrow> string list \<Rightarrow> error + chunk list" where
  "build_chunks encode i position [] = Inr []"
| "build_chunks encode i position (raw # raws) =
     (let t = strip raw in
      if t \<noteq> []
      then (case encode t of
              Inl e \<Rightarrow> Inl e
            | Inr tokens \<Rightarrow>
                on_results
                  (\<lambda>chunks. \<lparr>chunk_id = i, text_of = t, token_count = length tokens,
                               start_pos = position, end_pos = position + length t\<rparr> # chunks)
                  (build_chunks encode (Suc i) (position + length t) raws))
      else build_chunks encode (Suc i) position raws)"

definition default_separators :: "string list" where
  "default_separators = [[NL, NL], [NL], ''. '', '' '', '''']"

definition chunk_text :: "tokenizer \<Rightarrow> string \<Rightarrow> int \<Rightarrow> string list option \<Rightarrow> error + chunk list" where
  "chunk_text encode txt chunk_size separators =
     (let seps = (case separators of None \<Rightarrow> default_separators | Some ss \<Rightarrow> ss) in
      case split_recursive encode chunk_size txt seps of
        Inl e \<Rightarrow> Inl e
      | Inr raw_chunks \<Rightarrow> build_chunks encode 0 0 raw_chunks)"

text \<open>
  Three small tokenizers to run the chunker on concrete inputs. \<open>byte_encode\<close> gives
  one token per character. \<open>merged_encode\<close> is the same with one merged vocabulary
  entry, a space followed by \<open>ab\<close> (token 256), the way byte-pair vocabularies hold
  words with their leading space. \<open>guarded_encode\<close> gives one token per character
  and raises on a text that spells the end-of-text token.
\<close>

definition byte_encode :: tokenizer where
  "byte_encode s = Inr (map of_char s)"

fun merged_tokens :: "string \<Rightarrow> nat list" where
  "merged_tokens [] = []"
| "merged_tokens (c # cs) =
     (if c = CHR '' '' \<and> take 2 cs = ''ab'' then 256 # merged_tokens (drop 2 cs)
      else of_char c # merged_tokens cs)"

definition merged_encode :: tokenizer where
  "merged_encode s = Inr (merged_tokens s)"

definition guarded_encode :: tokenizer where
  "guarded_encode s = (if sublist ''<|endoftext|>'' s then Inl ValueError else Inr (map of_char s))"

section \<open>Chunk objects and ranked results\<close>

text \<open>
  The chunk collection is a Python list of dictionaries: a list of references. A
  reference is the address of the object, what \<^verbatim>\<open>id(chunk)\<close> returns, and the heap
  gives the fields of the object at an address. A ranked result pairs a reference
  with a score; a score is a Python float, the real number that the double stands for.
\<close>

type_synonym ref = nat

type_synonym heap = "ref \<Rightarrow> chunk"

text \<open>
  \<^verbatim>\<open>sorted(xs, key=key, reverse=True)\<close> and \<^verbatim>\<open>xs.sort(key=key, reverse=True)\<close>:
  descending by key, elements with equal keys in their original order.
\<close>

definition sort_desc :: "('a \<Rightarrow> real) \<Rightarrow> 'a list \<Rightarrow> 'a list" where
  "sort_desc key xs = sort_key (\<lambda>x. - key x) xs"

text \<open>
  The order that such a sort of the positions of a score list produces: the higher
  score first, and of two positions with the same score the smaller first.
\<close>

definition ranked_before :: "real list \<Rightarrow> nat \<Rightarrow> nat \<Rightarrow> bool" where
  "ranked_before scores i j \<longleftrightarrow> scores ! i > scores ! j \<or> (scores ! i = scores ! j \<and> i < j)"

section \<open>The lexical retriever (src/core/bm25_retriever.py)\<close>

text \<open>
  \<open>_tokenize\<close>: lower-case the text, then \<^verbatim>\<open>re.findall(r'\b\w+\b', text)\<close>, the
  maximal runs of word characters. A word character is the underscore or a code
  point that \<^verbatim>\<open>str.isalnum\<close> accepts: below 256, the ASCII letters and digits and
  the letters, superscript digits and fractions of Latin-1. \<^verbatim>\<open>str.lower\<close> moves the
  upper-case letters of both ranges by 32.
\<close>

definition is_word_char :: "char \<Rightarrow> bool" where
  "is_word_char c \<longleftrightarrow>
     (let n = (of_char c :: nat)
      in (48 \<le> n \<and> n \<le> 57) \<or> (65 \<le> n \<and> n \<le> 90) \<or> n = 95 \<or> (97 \<le> n \<and> n \<le> 122)
         \<or> n = 170 \<or> n = 178 \<or> n = 179 \<or> n = 181 \<or> n = 185 \<or> n = 186
         \<or> (188 \<le> n \<and> n \<le> 190) \<or> (192 \<le> n \<and> n \<le> 214)
         \<or> (216 \<le> n \<and> n \<le> 246) \<or> 248 \<le> n)"

definition lower_char :: "char \<Rightarrow> char" where
  "lower_char c =
     (let n = (of_char c :: nat)
      in if (65 \<le> n \<and> n \<le> 90) \<or> (192 \<le> n \<and> n \<le> 214) \<or> (216 \<le> n \<and> n \<le> 222)
         then char_of (n + 32) else c)"

fun word_runs :: "string \<Rightarrow> string \<Rightarrow> string list" where
  "word_runs cur [] = (if cur = [] then [] else [rev cur])"
| "word_runs cur (c # cs) =
     (if is_word_char c then word_runs (c # cur) cs
      else (if cur = [] then [] else [rev cur]) @ word_runs [] cs)"

definition tokenize :: "string \<Rightarrow> string list" where
  "tokenize s = word_runs [] (map lower_char s)"

text \<open>
  Modelled from the spec: the \<^verbatim>\<open>BM25Okapi\<close> index of the \<^verbatim>\<open>rank_bm25\<close> package,
  which is not in src/. The spec makes an empty corpus fatal at construction time (the
  package divides by the corpus size for the average document length), scores a chunk
  by summing a contribution of each query token, and gives every chunk the score zero
  for a query without tokens. \<open>weight corpus q i\<close> stands for the contribution of the
  query token \<open>q\<close> to document \<open>i\<close> of the corpus.
\<close>

record bm25okapi =
  corpus_size :: nat
  term_score :: "string \<Rightarrow> nat \<Rightarrow> real"

definition BM25Okapi :: "(string list list \<Rightarrow> string \<Rightarrow> nat \<Rightarrow> real) \<Rightarrow> string list list \<Rightarrow> error + bm25okapi" where
  "BM25Okapi weight corpus =
     (if corpus = [] then Inl ZeroDivisionError
      else Inr \<lparr>corpus_size = length corpus, term_score = weight corpus\<rparr>)"

text \<open>
  Modelled from the spec: \<^verbatim>\<open>BM25Okapi.get_scores\<close>, not in src/. One score for each
  document of the corpus, starting from zero, with the contributions of the query
  tokens added one token after the other.
\<close>

definition get_scores :: "bm25okapi \<Rightarrow> string list \<Rightarrow> real list" where
  "get_scores ix query =
     foldl (\<lambda>score q. map2 (+) score (map (term_score ix q) [0..<corpus_size ix]))
           (replicate (corpus_size ix) 0) query"

record bm25_retriever =
  bm25_chunks :: "ref list"
  tokenized_chunks :: "string list list"
  bm25 :: bm25okapi

text \<open>\<open>BM25Retriever.__init__\<close>\<close>

definition BM25Retriever_init :: "(string list list \<Rightarrow> string \<Rightarrow> nat \<Rightarrow> real) \<Rightarrow> heap \<Rightarrow> ref list \<Rightarrow> error + bm25_retriever" where
  "BM25Retriever_init weight h chunks =
     (let tokenized = map (\<lambda>c. tokenize (text_of (h c))) chunks
      in on_results (\<lambda>ix. \<lparr>bm25_chunks = chunks, tokenized_chunks = tokenized, bm25 = ix\<rparr>)
           (BM25Okapi weight tokenized))"

text \<open>\<open>BM25Retriever.search\<close>\<close>

definition BM25Retriever_search :: "bm25_retriever \<Rightarrow> string \<Rightarrow> int \<Rightarrow> error + (ref \<times> real) list" where
  "BM25Retriever_search r query top_k =
     (let query_tokens = tokenize query;
          scores = get_scores (bm25 r) query_tokens;
          top_indices = py_slice_to top_k (sort_desc (\<lambda>i. scores ! i) [0..<length scores])
      in sequence (map (\<lambda>i. on_results (\<lambda>c. [(c, scores ! i)]) (py_index (bm25_chunks r) (int i)))
                       top_indices))"

text \<open>\<open>BM25Retriever.search_with_threshold\<close>\<close>

definition BM25Retriever_search_with_threshold :: "bm25_retriever \<Rightarrow> string \<Rightarrow> real \<Rightarrow> int \<Rightarrow> error + (ref \<times> real) list" where
  "BM25Retriever_search_with_threshold r query threshold top_k =
     on_results (filter (\<lambda>(c, score). score \<ge> threshold)) (BM25Retriever_search r query top_k)"

section \<open>The semantic retriever (src/core/embedding_retriever.py)\<close>

text \<open>
  Modelled from the spec: the embedding model of \<^verbatim>\<open>sentence_transformers\<close> and the
  exact inner-product index \<^verbatim>\<open>faiss.IndexFlatIP\<close>, which are not in src/. \<open>encode\<close>
  is the vector of one text after \<^verbatim>\<open>faiss.normalize_L2\<close>. The index holds one row for
  each chunk, in insertion order. Its search wants a positive \<open>k\<close>, ranks the rows by
  inner product with the query vector, descending, ties in insertion order, and
  always answers \<open>k\<close> columns: when it holds fewer than \<open>k\<close> rows, the missing
  columns carry the index \<open>-1\<close> and the lowest float, \<open>pad_score\<close>.
\<close>

definition pad_score :: real where
  "pad_score = - 340282346638528859811704183484516925440"

text \<open>
  Modelled from the spec: \<^verbatim>\<open>IndexFlatIP.search\<close> for one query vector, not in src/.
  It returns the row of scores and the row of indices.
\<close>

definition inner_product :: "real list \<Rightarrow> real list \<Rightarrow> real" where
  "inner_product u v = sum_list (map2 (*) u v)"

definition index_search :: "real list list \<Rightarrow> real list \<Rightarrow> int \<Rightarrow> error + (real list \<times> int list)" where
  "index_search rows q k =
     (if k \<le> 0 then Inl AssertionError
      else let sims = map (inner_product q) rows;
               best = take (nat k) (sort_desc (\<lambda>i. sims ! i) [0..<length rows]);
               missing = nat k - length best
           in Inr (map (\<lambda>i. sims ! i) best @ replicate missing pad_score,
                   map int best @ replicate missing (- 1)))"

record embedding_retriever =
  emb_chunks :: "ref list"
  model :: "string \<Rightarrow> real list"
  index :: "real list list"

text \<open>
  \<open>EmbeddingRetriever.__init__\<close>. \<^verbatim>\<open>self.embeddings.shape[1]\<close> is the length of a
  row; the batch of an empty chunk list has no second dimension and the read raises.
\<close>

definition EmbeddingRetriever_init :: "(string \<Rightarrow> real list) \<Rightarrow> heap \<Rightarrow> ref list \<Rightarrow> error + embedding_retriever" where
  "EmbeddingRetriever_init encode h chunks =
     (let texts = map (\<lambda>c. text_of (h c)) chunks;
          embeddings = map encode texts
      in case embeddings of
           [] \<Rightarrow> Inl IndexError
         | row # _ \<Rightarrow> Inr \<lparr>emb_chunks = chunks, model = encode, index = embeddings\<rparr>)"

text \<open>
  \<open>EmbeddingRetriever.search\<close>: the loop over \<^verbatim>\<open>zip(indices[0], scores[0])\<close> reads
  \<^verbatim>\<open>self.chunks[idx]\<close> with Python's indexing, so \<open>-1\<close> is the last chunk.
\<close>

definition EmbeddingRetriever_search :: "embedding_retriever \<Rightarrow> string \<Rightarrow> int \<Rightarrow> error + (ref \<times> real) list" where
  "EmbeddingRetriever_search r query top_k =
     (let query_embedding = model r query
      in case index_search (index r) query_embedding top_k of
           Inl e \<Rightarrow> Inl e
         | Inr (scores, indices) \<Rightarrow>
             sequence (map (\<lambda>(idx, score). on_results (\<lambda>c. [(c, score)]) (py_index (emb_chunks r) idx))
                           (zip indices scores)))"

text \<open>\<open>EmbeddingRetriever.search_with_threshold\<close>\<close>

definition EmbeddingRetriever_search_with_threshold :: "embedding_retriever \<Rightarrow> string \<Rightarrow> real \<Rightarrow> int \<Rightarrow> error + (ref \<times> real) list" where
  "EmbeddingRetriever_search_with_threshold r query threshold top_k =
     on_results (filter (\<lambda>(c, score). score \<ge> threshold)) (EmbeddingRetriever_search r query top_k)"

section \<open>Python floats\<close>

text \<open>
  A Python float is an IEEE 754 double; a finite one is the real number it stands for.
  Each arithmetic operation gives the double nearest to the exact result, ties to the
  even significand. \<open>ulp x\<close> is the spacing of the doubles around \<open>x\<close>: \<open>2 ^ (e - 52)\<close>
  for \<open>2 ^ e \<le> \<bar>x\<bar> < 2 ^ (e + 1)\<close> and \<open>e \<ge> -1022\<close>, and \<open>2 ^ -1074\<close> below
  (the subnormal numbers). It is found by halving or doubling the spacing of the
  doubles between 1 and 2, which is \<open>2 ^ -52\<close>, until \<open>\<bar>x\<bar>\<close> lies between
  \<open>2 ^ 52\<close> and \<open>2 ^ 53\<close> spacings (\<open>2 ^ 52 = 4503599627370496\<close>); the fuel is the
  number of binades on each side. Results beyond the largest double (infinities) and
  NaN are outside this model.
\<close>

definition round_half_even :: "real \<Rightarrow> int" where
  "round_half_even y =
     (let f = \<lfloor>y\<rfloor>; d = y - of_int f
      in if d < 1 / 2 then f else if 1 / 2 < d then f + 1 else if even f then f else f + 1)"

fun ulp_down :: "nat \<Rightarrow> real \<Rightarrow> real \<Rightarrow> real" where
  "ulp_down fuel u a = (if fuel = 0 \<or> u * 4503599627370496 \<le> a then u else ulp_down (fuel - 1) (u / 2) a)"

fun ulp_up :: "nat \<Rightarrow> real \<Rightarrow> real \<Rightarrow> real" where
  "ulp_up fuel u a = (if fuel = 0 \<or> a < u * 9007199254740992 then u else ulp_up (fuel - 1) (2 * u) a)"

definition ulp :: "real \<Rightarrow> real" where
  "ulp x = (if \<bar>x\<bar> < 1 then ulp_down 1022 (1 / 4503599627370496) \<bar>x\<bar>
            else ulp_up 1023 (1 / 4503599627370496) \<bar>x\<bar>)"

definition double_round :: "real \<Rightarrow> real" where
  "double_round x = (if x = 0 then 0 else of_int (round_half_even (x / ulp x)) * ulp x)"

text \<open>
  \<^verbatim>\<open>float(n)\<close> of an integer and the four operations on floats. The only division of
  the retrievers is by \<open>60 + rank\<close>, which is not zero.
\<close>

definition float_of_int :: "int \<Rightarrow> real" where
  "float_of_int n = double_round (of_int n)"

definition float_add :: "real \<Rightarrow> real \<Rightarrow> real" where
  "float_add a b = double_round (a + b)"

definition float_sub :: "real \<Rightarrow> real \<Rightarrow> real" where
  "float_sub a b = double_round (a - b)"

definition float_mul :: "real \<Rightarrow> real \<Rightarrow> real" where
  "float_mul a b = double_round (a * b)"

definition float_div :: "real \<Rightarrow> real \<Rightarrow> real" where
  "float_div a b = double_round (a / b)"

section \<open>The hybrid retriever (src/core/hybrid_retriever.py)\<close>

record hybrid_retriever =
  hyb_chunks :: "ref list"
  hyb_bm25 :: bm25_retriever
  hyb_embedding :: embedding_retriever

text \<open>\<open>HybridRetriever.__init__\<close>\<close>

definition HybridRetriever_init :: "(string list list \<Rightarrow> string \<Rightarrow> nat \<Rightarrow> real) \<Rightarrow> (string \<Rightarrow> real list) \<Rightarrow> heap \<Rightarrow> ref list \<Rightarrow> error + hybrid_retriever" where
  "HybridRetriever_init weight encode h chunks =
     (case BM25Retriever_init weight h chunks of
        Inl e \<Rightarrow> Inl e
      | Inr b \<Rightarrow>
          (case EmbeddingRetriever_init encode h chunks of
             Inl e \<Rightarrow> Inl e
           | Inr e \<Rightarrow> Inr \<lparr>hyb_chunks = chunks, hyb_bm25 = b, hyb_embedding = e\<rparr>))"

text \<open>
  The dictionary \<^verbatim>\<open>rrf_scores\<close>, from \<^verbatim>\<open>id(chunk)\<close> to an entry. A Python dictionary
  keeps its keys in insertion order and an assignment to a key it holds keeps the
  key's place: an association list.
\<close>

record rrf_entry =
  entry_chunk :: ref
  bm25_rrf :: real
  embedding_rrf :: real

fun dict_set :: "'k \<Rightarrow> 'v \<Rightarrow> ('k \<times> 'v) list \<Rightarrow> ('k \<times> 'v) list" where
  "dict_set k v [] = [(k, v)]"
| "dict_set k v ((k', v') # d) = (if k' = k then (k, v) # d else (k', v') # dict_set k v d)"

definition k_constant :: nat where
  "k_constant = 60"

text \<open>\<^verbatim>\<open>rrf_score = 1.0 / (k_constant + rank)\<close>, in both loops.\<close>

definition rrf_score :: "nat \<Rightarrow> real" where
  "rrf_score rank = float_div 1 (float_of_int (int k_constant + int rank))"

text \<open>The loop over \<^verbatim>\<open>enumerate(bm25_results, start=1)\<close>.\<close>

fun add_bm25 :: "nat \<Rightarrow> (ref \<times> real) list \<Rightarrow> (ref \<times> rrf_entry) list \<Rightarrow> (ref \<times> rrf_entry) list" where
  "add_bm25 rank [] rrf_scores = rrf_scores"
| "add_bm25 rank ((chunk, score) # rest) rrf_scores =
     add_bm25 (Suc rank) rest
       (dict_set chunk \<lparr>entry_chunk = chunk, bm25_rrf = rrf_score rank, embedding_rrf = 0\<rparr>
          rrf_scores)"

text \<open>The loop over \<^verbatim>\<open>enumerate(embedding_results, start=1)\<close>.\<close>

fun add_embedding :: "nat \<Rightarrow> (ref \<times> real) list \<Rightarrow> (ref \<times> rrf_entry) list \<Rightarrow> (ref \<times> rrf_entry) list" where
  "add_embedding rank [] rrf_scores = rrf_scores"
| "add_embedding rank ((chunk, score) # rest) rrf_scores =
     add_embedding (Suc rank) rest
       (case map_of rrf_scores chunk of
          Some data \<Rightarrow> dict_set chunk (data\<lparr>embedding_rrf := rrf_score rank\<rparr>) rrf_scores
        | None \<Rightarrow>
            dict_set chunk \<lparr>entry_chunk = chunk, bm25_rrf = 0, embedding_rrf = rrf_score rank\<rparr>
              rrf_scores)"

text \<open>
  The loop over \<^verbatim>\<open>rrf_scores.items()\<close>, with
  \<^verbatim>\<open>alpha * data['embedding_rrf'] + (1 - alpha) * data['bm25_rrf']\<close> in floats.
\<close>

definition hybrid_results :: "real \<Rightarrow> (ref \<times> rrf_entry) list \<Rightarrow> (ref \<times> real) list" where
  "hybrid_results alpha rrf_scores =
     map (\<lambda>(chunk_id, data).
            (entry_chunk data,
             float_add (float_mul alpha (embedding_rrf data))
                       (float_mul (float_sub 1 alpha) (bm25_rrf data))))
         rrf_scores"

text \<open>\<open>HybridRetriever.search\<close>\<close>

definition HybridRetriever_search :: "hybrid_retriever \<Rightarrow> string \<Rightarrow> int \<Rightarrow> real \<Rightarrow> int \<Rightarrow> int \<Rightarrow> error + (ref \<times> real) list" where
  "HybridRetriever_search r query top_k alpha bm25_k embedding_k =
     (case BM25Retriever_search (hyb_bm25 r) query bm25_k of
        Inl e \<Rightarrow> Inl e
      | Inr bm25_results \<Rightarrow>
          (case EmbeddingRetriever_search (hyb_embedding r) query embedding_k of
             Inl e \<Rightarrow> Inl e
           | Inr embedding_results \<Rightarrow>
               Inr (py_slice_to top_k
                      (sort_desc snd
                         (hybrid_results alpha
                            (add_embedding 1 embedding_results (add_bm25 1 bm25_results [])))))))"

text \<open>\<open>search_bm25_only\<close> and \<open>search_embedding_only\<close>\<close>

definition search_bm25_only :: "hybrid_retriever \<Rightarrow> string \<Rightarrow> int \<Rightarrow> error + (ref \<times> real) list" where
  "search_bm25_only r query top_k = BM25Retriever_search (hyb_bm25 r) query top_k"

definition search_embedding_only :: "hybrid_retriever \<Rightarrow> string \<Rightarrow> int \<Rightarrow> error + (ref \<times> real) list" where
  "search_embedding_only r query top_k = EmbeddingRetriever_search (hyb_embedding r) query top_k"

section \<open>Reciprocal rank fusion, as the specification words it\<close>

text \<open>
  The chunk at 1-based rank \<open>r\<close> of a candidate list contributes \<open>1 / (60 + r)\<close>, a
  chunk that is not in the list contributes 0; the fused score is \<open>alpha\<close> times the
  semantic contribution plus \<open>1 - alpha\<close> times the lexical one. The numbers are
  floats: each operation is rounded as the code rounds it.
\<close>

definition first_index :: "'a list \<Rightarrow> 'a \<Rightarrow> nat" where
  "first_index xs c = length (takeWhile (\<lambda>x. x \<noteq> c) xs)"

definition rank_of :: "ref list \<Rightarrow> ref \<Rightarrow> nat" where
  "rank_of candidates c = Suc (first_index candidates c)"

definition rrf_contribution :: "ref list \<Rightarrow> ref \<Rightarrow> real" where
  "rrf_contribution candidates c =
     (if c \<in> set candidates
      then float_div 1 (float_of_int (60 + int (rank_of candidates c))) else 0)"

definition fused_score :: "real \<Rightarrow> ref list \<Rightarrow> ref list \<Rightarrow> ref \<Rightarrow> real" where
  "fused_score alpha lexical semantic c =
     float_add (float_mul alpha (rrf_contribution semantic c))
               (float_mul (float_sub 1 alpha) (rrf_contribution lexical c))"

text \<open>
  Every chunk of either list once, the lexical list first, then the chunks that only
  the semantic list has; sorted by fused score, descending, ties in that order.
\<close>

definition rrf_ranking :: "real \<Rightarrow> ref list \<Rightarrow> ref list \<Rightarrow> (ref \<times> real) list" where
  "rrf_ranking alpha lexical semantic =
     sort_desc snd
       (map (\<lambda>c. (c, fused_score alpha lexical semantic c))
            (lexical @ filter (\<lambda>c. c \<notin> set lexical) semantic))"

section \<open>A small corpus to run the retrievers on\<close>

text \<open>
  Three chunk objects at the addresses 0, 1 and 2, a weight that counts the
  occurrences of the query token in the document, and an embedding with two
  dimensions.
\<close>

definition demo_heap :: heap where
  "demo_heap a =
     (if a = 0 then \<lparr>chunk_id = 0, text_of = ''Cats purr.'', token_count = 3, start_pos = 0, end_pos = 10\<rparr>
      else if a = 1 then \<lparr>chunk_id = 1, text_of = ''Dogs bark.'', token_count = 3, start_pos = 10, end_pos = 20\<rparr>
      else \<lparr>chunk_id = 2, text_of = ''Birds sing.'', token_count = 3, start_pos = 20, end_pos = 31\<rparr>)"

definition count_weight :: "string list list \<Rightarrow> string \<Rightarrow> nat \<Rightarrow> real" where
  "count_weight corpus q i = real (count_list (corpus ! i) q)"

definition demo_encode :: "string \<Rightarrow> real list" where
  "demo_encode s =
     (if ''cats'' \<in> set (tokenize s) then [1, 0]
      else if ''dogs'' \<in> set (tokenize s) then [0, 1]
      else [3 / 5, 4 / 5])"

text \<open>
  The retrievers built over the three chunks, and the hybrid retriever built over the
  first two.
\<close>

definition demo_bm25 :: bm25_retriever where
  "demo_bm25 = projr (BM25Retriever_init count_weight demo_heap [0, 1, 2])"

definition demo_embedding :: embedding_retriever where
  "demo_embedding = projr (EmbeddingRetriever_init demo_encode demo_heap [0, 1, 2])"

definition demo_hybrid :: hybrid_retriever where
  "demo_hybrid = projr (HybridRetriever_init count_weight demo_encode demo_heap [0, 1, 2])"

definition demo_hybrid_two :: hybrid_retriever where
  "demo_hybrid_two = projr (HybridRetriever_init count_weight demo_encode demo_heap [0, 1])"

section \<open>Properties of the chunker\<close>

subsection \<open>Trimming and splitting\<close>

lemma dropWhile_rev_trim:
  "dropWhile P (rev (dropWhile P (rev (dropWhile P s)))) = rev (dropWhile P (rev (dropWhile P s)))"
proof -
  define a where "a = dropWhile P s"
  define b where "b = rev (dropWhile P (rev a))"
  have ab: "a = b @ rev (takeWhile P (rev a))"
  proof -
    have "b @ rev (takeWhile P (rev a)) = rev (takeWhile P (rev a) @ dropWhile P (rev a))"
      by (simp only: b_def rev_append)
    also have "\<dots> = a" by simp
    finally show ?thesis by simp
  qed
  have "dropWhile P b = b"
  proof (cases "b = []")
    case True
    then show ?thesis by simp
  next
    case False
    then have "a \<noteq> []" using ab by auto
    then have "\<not> P (hd a)" unfolding a_def by (rule hd_dropWhile)
    moreover have "hd a = hd b" using ab False by (metis hd_append2)
    ultimately show ?thesis using False by (cases b) auto
  qed
  then show ?thesis by (simp add: a_def b_def)
qed

lemma strip_idem: "strip (strip s) = strip s"
  unfolding strip_def by (simp add: dropWhile_rev_trim)

text \<open>
  A string is blank, that is empty once trimmed, when all its characters are
  whitespace; blank strings at either end of a string do not change its trimmed form.
\<close>

lemma strip_blank_iff: "strip s = [] \<longleftrightarrow> (\<forall>c \<in> set s. is_space c)"
proof
  assume "strip s = []"
  then have "\<forall>c \<in> set (dropWhile is_space s). is_space c"
    by (simp add: strip_def dropWhile_eq_Nil_conv)
  then have "dropWhile is_space s = []"
    using hd_dropWhile[of is_space s] by (cases "dropWhile is_space s") auto
  then show "\<forall>c \<in> set s. is_space c" by (simp add: dropWhile_eq_Nil_conv)
next
  assume "\<forall>c \<in> set s. is_space c"
  then have "dropWhile is_space s = []" by (simp add: dropWhile_eq_Nil_conv)
  then show "strip s = []" unfolding strip_def by (simp only: rev.simps dropWhile.simps)
qed

lemma strip_append_blank_left:
  assumes "strip a = []"
  shows "strip (a @ s) = strip s"
proof -
  have "\<And>x. x \<in> set a \<Longrightarrow> is_space x" using assms by (simp add: strip_blank_iff)
  then have "dropWhile is_space (a @ s) = dropWhile is_space s" by (rule dropWhile_append2)
  then show ?thesis by (simp add: strip_def)
qed

lemma strip_append_blank_right:
  assumes "strip b = []"
  shows "strip (s @ b) = strip s"
proof (cases "strip s = []")
  case True
  with assms have "strip (s @ b) = []" by (auto simp: strip_blank_iff)
  with True show ?thesis by simp
next
  case False
  then obtain c where c: "c \<in> set s" "\<not> is_space c" by (auto simp: strip_blank_iff)
  have b: "\<And>x. x \<in> set (rev b) \<Longrightarrow> is_space x" using assms by (simp add: strip_blank_iff)
  have "dropWhile is_space (s @ b) = dropWhile is_space s @ b"
    using c by (rule dropWhile_append1)
  then have "dropWhile is_space (rev (dropWhile is_space (s @ b)))
             = dropWhile is_space (rev b @ rev (dropWhile is_space s))" by simp
  also have "\<dots> = dropWhile is_space (rev (dropWhile is_space s))"
    using b by (rule dropWhile_append2)
  finally show ?thesis by (simp add: strip_def)
qed

lemma split_from_absent:
  "\<not> sublist sep s \<Longrightarrow> split_from sep cur s = [rev cur @ s]"
proof (induction s arbitrary: cur)
  case Nil
  then show ?case by simp
next
  case (Cons c cs)
  have a: "take (length sep) (c # cs) \<noteq> sep"
  proof
    assume "take (length sep) (c # cs) = sep"
    then have "c # cs = sep @ drop (length sep) (c # cs)"
      by (metis append_take_drop_id)
    then have "c # cs = [] @ sep @ drop (length sep) (c # cs)" by simp
    then have "sublist sep (c # cs)" unfolding sublist_def by blast
    with Cons.prems show False by simp
  qed
  have b: "\<not> sublist sep cs"
    using Cons.prems by (auto simp: sublist_Cons_right)
  show ?case using a Cons.IH[OF b] by simp
qed

text \<open>
  The pieces of a split, joined by the separator, are the text that was split, so
  every piece is a part of the text.
\<close>

lemma split_from_nonempty: "split_from sep cur s \<noteq> []"
  by (induction sep cur s rule: split_from.induct) auto

lemma join_Cons: "ps \<noteq> [] \<Longrightarrow> join sep (p # ps) = p @ sep @ join sep ps"
  by (cases ps) auto

lemma join_split_from: "sep \<noteq> [] \<Longrightarrow> join sep (split_from sep cur s) = rev cur @ s"
proof (induction sep cur s rule: split_from.induct)
  case (1 sep cur)
  then show ?case by simp
next
  case (2 sep cur c cs)
  show ?case
  proof (cases "take (length sep) (c # cs) = sep")
    case True
    have "c # cs = take (length sep) (c # cs) @ drop (length sep) (c # cs)" by simp
    also have "drop (length sep) (c # cs) = drop (length sep - 1) cs"
      using "2.prems" by (cases sep) auto
    finally have whole: "c # cs = sep @ drop (length sep - 1) cs" using True by simp
    have "join sep (split_from sep cur (c # cs))
          = rev cur @ sep @ join sep (split_from sep [] (drop (length sep - 1) cs))"
      using True by (simp add: join_Cons split_from_nonempty)
    also have "\<dots> = rev cur @ sep @ drop (length sep - 1) cs"
      using "2.IH"(1)[OF True "2.prems"] by simp
    finally show ?thesis using whole by simp
  next
    case False
    then show ?thesis using "2.IH"(2)[OF False "2.prems"] by simp
  qed
qed

lemma join_str_split: "sep \<noteq> [] \<Longrightarrow> join sep (str_split sep s) = s"
  by (simp add: str_split_def join_split_from)

lemma join_append:
  "join sep (xs @ p # ys) =
     (if xs = [] then [] else join sep xs @ sep) @ p @ (if ys = [] then [] else sep @ join sep ys)"
proof (induction xs)
  case Nil
  then show ?case by (cases ys) auto
next
  case (Cons x xs)
  then show ?case by (cases xs) (auto simp: join_Cons)
qed

lemma strip_join_blank:
  "strip sep = [] \<Longrightarrow> \<forall>q \<in> set qs. strip q = [] \<Longrightarrow> strip (join sep qs) = []"
  by (induction sep qs rule: join.induct) (auto simp: strip_blank_iff)

lemma set_join: "p \<in> set ps \<Longrightarrow> set p \<subseteq> set (join sep ps)"
  by (induction sep ps rule: join.induct) auto

lemma str_split_nonblank:
  assumes "sep \<noteq> []" and "p \<in> set (str_split sep s)" and "strip p \<noteq> []"
  shows "strip s \<noteq> []"
proof -
  have "set p \<subseteq> set s" using set_join[OF assms(2), of sep] join_str_split[OF assms(1)] by simp
  with assms(3) show ?thesis by (auto simp: strip_blank_iff)
qed

text \<open>
  When all the pieces of a text but one are blank, and so is the separator, the text
  and that piece have the same trimmed form.
\<close>

lemma strip_only_piece:
  assumes "sep \<noteq> []" and "strip sep = []"
    and "filter (\<lambda>q. strip q \<noteq> []) (str_split sep s) = [p]"
  shows "strip p = strip s"
proof -
  from assms(3) obtain us vs where ps: "str_split sep s = us @ p # vs"
    and us: "\<forall>u \<in> set us. strip u = []" and vs: "filter (\<lambda>q. strip q \<noteq> []) vs = []"
    by (auto simp: filter_eq_Cons_iff)
  from vs have vs': "\<forall>v \<in> set vs. strip v = []" by (simp add: filter_empty_conv)
  let ?before = "if us = [] then [] else join sep us @ sep"
  let ?after = "if vs = [] then [] else sep @ join sep vs"
  have s: "s = ?before @ p @ ?after"
    using join_str_split[OF assms(1), of s] unfolding ps join_append by simp
  have b: "strip ?before = []"
    using strip_join_blank[OF assms(2) us] assms(2) by (auto simp: strip_blank_iff)
  have a: "strip ?after = []"
    using strip_join_blank[OF assms(2) vs'] assms(2) by (auto simp: strip_blank_iff)
  have "strip s = strip (?before @ (p @ ?after))" using s by simp
  also have "\<dots> = strip (p @ ?after)" using b by (rule strip_append_blank_left)
  also have "\<dots> = strip p" using a by (rule strip_append_blank_right)
  finally show ?thesis by simp
qed

subsection \<open>The two loops\<close>

lemma sequence_subset:
  "sequence rs = Inr ys \<Longrightarrow> Inr xs \<in> set rs \<Longrightarrow> set xs \<subseteq> set ys"
proof (induction rs arbitrary: ys rule: sequence.induct)
  case 1
  then show ?case by simp
next
  case (2 e rs)
  then show ?case by simp
next
  case (3 zs rs)
  then show ?case by (fastforce split: sum.splits)
qed

text \<open>
  A loop that keeps some elements as they are and skips the others is a filter; it
  raises what the first kept element raises.
\<close>

lemma sequence_filter:
  assumes "\<And>q. q \<in> set ps \<Longrightarrow> \<not> keep q \<Longrightarrow> g q = Inr []"
    and "\<And>q. q \<in> set ps \<Longrightarrow> keep q \<Longrightarrow> g q = Inr [q]"
  shows "sequence (map g ps) = Inr (filter keep ps)"
  using assms by (induction ps) auto

lemma sequence_raises:
  assumes "\<And>q. q \<in> set ps \<Longrightarrow> \<not> keep q \<Longrightarrow> g q = Inr []"
    and "filter keep ps = p # rest" and "g p = Inl e"
  shows "sequence (map g ps) = Inl e"
  using assms
proof (induction ps)
  case Nil
  then show ?case by simp
next
  case (Cons q ps)
  show ?case
  proof (cases "keep q")
    case True
    with Cons.prems(2) have "q = p" by simp
    with Cons.prems(3) show ?thesis by simp
  next
    case False
    then have "g q = Inr []" using Cons.prems(1) by simp
    moreover have "sequence (map g ps) = Inl e"
      using Cons.IH Cons.prems False by simp
    ultimately show ?thesis by simp
  qed
qed

lemma build_chunks_mem:
  "build_chunks encode i position raws = Inr chunks \<Longrightarrow> c \<in> set chunks \<Longrightarrow>
     \<exists>raw \<in> set raws. \<exists>tokens. strip raw \<noteq> [] \<and> text_of c = strip raw \<and>
        encode (strip raw) = Inr tokens \<and> token_count c = length tokens"
proof (induction raws arbitrary: i position chunks)
  case Nil
  then show ?case by simp
next
  case (Cons raw raws)
  then show ?case
    by (fastforce simp: Let_def on_results_def split: if_splits sum.splits)
qed

lemma build_chunks_has:
  "build_chunks encode i position raws = Inr chunks \<Longrightarrow> raw \<in> set raws \<Longrightarrow>
   strip raw \<noteq> [] \<Longrightarrow> encode (strip raw) = Inr trimmed \<Longrightarrow>
     \<exists>c \<in> set chunks. text_of c = strip raw \<and> token_count c = length trimmed"
proof (induction raws arbitrary: i position chunks)
  case Nil
  then show ?case by simp
next
  case (Cons r raws)
  then show ?case
    by (fastforce simp: Let_def on_results_def split: if_splits sum.splits)
qed

lemma split_recursive_blank:
  "strip t = [] \<Longrightarrow> split_recursive encode chunk_size t seps = Inr []"
  by (cases seps) auto

lemma split_recursive_separator:
  "strip t \<noteq> [] \<Longrightarrow> separator \<noteq> [] \<Longrightarrow>
   split_recursive encode chunk_size t (separator # remaining_seps) =
     sequence (map (\<lambda>split.
             if strip split = [] then Inr []
             else case encode split of
                    Inl e \<Rightarrow> Inl e
                  | Inr tokens \<Rightarrow>
                      if int (length tokens) \<le> chunk_size then Inr [split]
                      else split_recursive encode chunk_size split remaining_seps)
           (str_split separator t))"
  by simp

lemma chunk_text_default:
  "chunk_text encode doc chunk_size None = chunk_text encode doc chunk_size (Some default_separators)"
  by (simp add: chunk_text_def)

text \<open>
  A text with one non-blank piece along the first separator, which the tokenizer
  accepts within the budget: the loop keeps that piece alone, whatever the other
  separators are.
\<close>

lemma split_recursive_only_piece:
  assumes "separator \<noteq> []"
    and "filter (\<lambda>q. strip q \<noteq> []) (str_split separator doc) = [p]"
    and "encode p = Inr tokens" and "int (length tokens) \<le> chunk_size"
  shows "split_recursive encode chunk_size doc (separator # remaining_seps) = Inr [p]"
proof -
  let ?g = "\<lambda>split.
             if strip split = [] then Inr []
             else case encode split of
                    Inl e \<Rightarrow> Inl e
                  | Inr tokens \<Rightarrow>
                      if int (length tokens) \<le> chunk_size then Inr [split]
                      else split_recursive encode chunk_size split remaining_seps"
  have p: "p \<in> set (str_split separator doc)" "strip p \<noteq> []"
    using assms(2) by (auto simp: filter_eq_Cons_iff)
  have nonblank: "strip doc \<noteq> []" by (rule str_split_nonblank[OF assms(1) p])
  have only: "q = p" if "q \<in> set (str_split separator doc)" "strip q \<noteq> []" for q
  proof -
    from that have "q \<in> set (filter (\<lambda>q. strip q \<noteq> []) (str_split separator doc))" by simp
    then show ?thesis unfolding assms(2) by simp
  qed
  have "sequence (map ?g (str_split separator doc))
        = Inr (filter (\<lambda>q. strip q \<noteq> []) (str_split separator doc))"
  proof (rule sequence_filter)
    fix q assume "q \<in> set (str_split separator doc)" "\<not> strip q \<noteq> []"
    then show "?g q = Inr []" by simp
  next
    fix q assume "q \<in> set (str_split separator doc)" "strip q \<noteq> []"
    then have "q = p" by (rule only)
    then show "?g q = Inr [q]" using p(2) assms(3,4) by simp
  qed
  then show ?thesis
    unfolding split_recursive_separator[OF nonblank assms(1)] assms(2) .
qed

lemma split_recursive_only_piece_raises:
  assumes "separator \<noteq> []"
    and "filter (\<lambda>q. strip q \<noteq> []) (str_split separator doc) = [p]"
    and "encode p = Inl e"
  shows "split_recursive encode chunk_size doc (separator # remaining_seps) = Inl e"
proof -
  let ?g = "\<lambda>split.
             if strip split = [] then Inr []
             else case encode split of
                    Inl e \<Rightarrow> Inl e
                  | Inr tokens \<Rightarrow>
                      if int (length tokens) \<le> chunk_size then Inr [split]
                      else split_recursive encode chunk_size split remaining_seps"
  have p: "p \<in> set (str_split separator doc)" "strip p \<noteq> []"
    using assms(2) by (auto simp: filter_eq_Cons_iff)
  have nonblank: "strip doc \<noteq> []" by (rule str_split_nonblank[OF assms(1) p])
  have "sequence (map ?g (str_split separator doc)) = Inl e"
  proof (rule sequence_raises[where keep = "\<lambda>q. strip q \<noteq> []", OF _ assms(2)])
    fix q assume "q \<in> set (str_split separator doc)" "\<not> strip q \<noteq> []"
    then show "?g q = Inr []" by simp
  next
    show "?g p = Inl e" using p(2) assms(3) by simp
  qed
  then show ?thesis
    unfolding split_recursive_separator[OF nonblank assms(1)] .
qed

subsection \<open>The budget\<close>

text \<open>
  Claim C2. The budget is checked on one string and the count is recorded on another.
  For every tokenizer, text, budget and separator list whose first separator is not
  the empty string: a non-blank piece \<open>p\<close> of the text along the first separator,
  which the tokenizer accepts with at most \<open>chunk_size\<close> tokens, is kept as it is
  by the loop of \<open>_split_recursive\<close> (\<^verbatim>\<open>tokens <= chunk_size\<close>), and the chunk
  made of it holds the trimmed piece with the token count of the trimmed piece. The
  empty-string fallback plays no part: the other separators are arbitrary, and may
  hold no empty string at all. So whenever the tokenizer counts more than
  \<open>chunk_size\<close> tokens for the trimmed piece, which a byte-pair vocabulary that
  holds a word with its leading space but not the word alone does, a chunk that is
  no character window is over the budget.
\<close>

theorem chunk_text_counts_trimmed_text:
  assumes "chunk_text encode doc chunk_size (Some (separator # remaining_seps)) = Inr chunks"
    and "separator \<noteq> []"
    and "p \<in> set (str_split separator doc)" and "strip p \<noteq> []"
    and "encode p = Inr tokens" and "int (length tokens) \<le> chunk_size"
    and "encode (strip p) = Inr trimmed"
  shows "\<exists>raws. split_recursive encode chunk_size doc (separator # remaining_seps) = Inr raws
            \<and> p \<in> set raws
            \<and> build_chunks encode 0 0 raws = Inr chunks
            \<and> (\<exists>c \<in> set chunks. text_of c = strip p \<and> token_count c = length trimmed)"
proof -
  let ?g = "\<lambda>split.
             if strip split = [] then Inr []
             else case encode split of
                    Inl e \<Rightarrow> Inl e
                  | Inr tokens \<Rightarrow>
                      if int (length tokens) \<le> chunk_size then Inr [split]
                      else split_recursive encode chunk_size split remaining_seps"
  from assms(1) obtain raws
    where raws: "split_recursive encode chunk_size doc (separator # remaining_seps) = Inr raws"
      and chunks: "build_chunks encode 0 0 raws = Inr chunks"
    by (auto simp: chunk_text_def split: sum.splits)
  have nonblank: "strip doc \<noteq> []" by (rule str_split_nonblank[OF assms(2,3,4)])
  have seq: "sequence (map ?g (str_split separator doc)) = Inr raws"
    using raws unfolding split_recursive_separator[OF nonblank assms(2)] .
  have kept: "?g p = Inr [p]" using assms(4,5,6) by simp
  have "?g p \<in> ?g ` set (str_split separator doc)" using assms(3) by (rule imageI)
  then have "Inr [p] \<in> set (map ?g (str_split separator doc))"
    unfolding kept by (simp only: set_map)
  from sequence_subset[OF seq this] have p: "p \<in> set raws" by simp
  from build_chunks_has[OF chunks p assms(4,7)] raws p chunks show ?thesis by blast
qed

text \<open>
  The theorem of C2 at a concrete input: the tokenizer with the merged entry, a text of
  two paragraphs and a budget of 1. The second paragraph, a space and \<open>ab\<close>, is one
  token; its chunk holds \<open>ab\<close> with a count of 2.
\<close>

theorem chunk_text_counts_trimmed_text_witness:
  "chunk_text merged_encode (CHR ''x'' # NL # NL # '' ab'') 1 None =
     Inr [\<lparr>chunk_id = 0, text_of = ''x'', token_count = 1, start_pos = 0, end_pos = 1\<rparr>,
          \<lparr>chunk_id = 1, text_of = ''ab'', token_count = 2, start_pos = 1, end_pos = 3\<rparr>]
   \<and> str_split [NL, NL] (CHR ''x'' # NL # NL # '' ab'') = [''x'', '' ab'']
   \<and> strip '' ab'' = ''ab''
   \<and> merged_encode '' ab'' = Inr [256] \<and> int (length [256::nat]) \<le> 1
   \<and> merged_encode ''ab'' = Inr [97, 98] \<and> \<not> int (length [97::nat, 98]) \<le> 1
   \<and> (\<exists>raws. split_recursive merged_encode 1 (CHR ''x'' # NL # NL # '' ab'') default_separators = Inr raws
          \<and> '' ab'' \<in> set raws
          \<and> build_chunks merged_encode 0 0 raws =
              Inr [\<lparr>chunk_id = 0, text_of = ''x'', token_count = 1, start_pos = 0, end_pos = 1\<rparr>,
                   \<lparr>chunk_id = 1, text_of = ''ab'', token_count = 2, start_pos = 1, end_pos = 3\<rparr>]
          \<and> (\<exists>c \<in> set [\<lparr>chunk_id = 0, text_of = ''x'', token_count = 1, start_pos = 0, end_pos = 1\<rparr>,
                         \<lparr>chunk_id = 1, text_of = ''ab'', token_count = 2, start_pos = 1, end_pos = 3\<rparr>].
                text_of c = ''ab'' \<and> token_count c = length [97::nat, 98]))"
proof -
  let ?doc = "CHR ''x'' # NL # NL # '' ab''"
  let ?c0 = "\<lparr>chunk_id = 0, text_of = ''x'', token_count = 1, start_pos = 0, end_pos = 1\<rparr>"
  let ?c1 = "\<lparr>chunk_id = 1, text_of = ''ab'', token_count = 2, start_pos = 1, end_pos = 3\<rparr>"
  have seps: "default_separators = [NL, NL] # [[NL], ''. '', '' '', '''']"
    by (simp add: default_separators_def)
  have run: "chunk_text merged_encode ?doc 1 None = Inr [?c0, ?c1]"
    by code_simp
  have run': "chunk_text merged_encode ?doc 1 (Some ([NL, NL] # [[NL], ''. '', '' '', ''''])) = Inr [?c0, ?c1]"
    using run unfolding chunk_text_default seps .
  have sep: "[NL, NL] \<noteq> []" by simp
  have pieces: "str_split [NL, NL] ?doc = [''x'', '' ab'']" by code_simp
  have piece: "'' ab'' \<in> set (str_split [NL, NL] ?doc)" unfolding pieces by simp
  have trim: "strip '' ab'' = ''ab''" by code_simp
  have nonblank: "strip '' ab'' \<noteq> []" unfolding trim by simp
  have tokens: "merged_encode '' ab'' = Inr [256]" by code_simp
  have fits: "int (length [256::nat]) \<le> 1" by simp
  have trimmed: "merged_encode ''ab'' = Inr [97, 98]" by code_simp
  have trimmed': "merged_encode (strip '' ab'') = Inr [97, 98]" unfolding trim by (rule trimmed)
  have over: "\<not> int (length [97::nat, 98]) \<le> 1" by simp
  note inst = chunk_text_counts_trimmed_text[OF run' sep piece nonblank tokens fits trimmed',
      unfolded trim, folded seps]
  from run pieces trim tokens fits trimmed over inst show ?thesis by (intro conjI)
qed

subsection \<open>Blank texts and texts of one paragraph\<close>

text \<open>
  Claim C8, as the code has it. An empty or whitespace-only text gives the empty chunk
  list and no exception, for every tokenizer, budget and separator list. With the
  default separators, a text with exactly one non-blank paragraph \<open>p\<close> (the
  paragraphs are the pieces between two newlines in a row; a text without two newlines
  in a row is its own single paragraph), which the tokenizer accepts with at most
  \<open>chunk_size\<close> tokens, gives exactly one chunk: its text is the whole trimmed text,
  which is the trimmed paragraph, and its count is the token count of the trimmed
  text. When the tokenizer raises on the paragraph or on the trimmed text, so does
  \<open>chunk_text\<close>.
\<close>

theorem chunk_text_blank_or_single:
  "(strip doc = [] \<longrightarrow> chunk_text encode doc chunk_size separators = Inr [])
   \<and> (filter (\<lambda>q. strip q \<noteq> []) (str_split [NL, NL] doc) = [p]
        \<and> encode p = Inr tokens \<and> int (length tokens) \<le> chunk_size \<longrightarrow>
        strip p = strip doc \<and>
        chunk_text encode doc chunk_size None =
          (case encode (strip doc) of
             Inl e \<Rightarrow> Inl e
           | Inr trimmed \<Rightarrow>
               Inr [\<lparr>chunk_id = 0, text_of = strip doc, token_count = length trimmed,
                     start_pos = 0, end_pos = length (strip doc)\<rparr>]))
   \<and> (filter (\<lambda>q. strip q \<noteq> []) (str_split [NL, NL] doc) = [p] \<and> encode p = Inl e \<longrightarrow>
        chunk_text encode doc chunk_size None = Inl e)
   \<and> (strip doc \<noteq> [] \<and> \<not> sublist [NL, NL] doc \<longrightarrow>
        filter (\<lambda>q. strip q \<noteq> []) (str_split [NL, NL] doc) = [doc])"
proof (intro conjI impI)
  assume "strip doc = []"
  then show "chunk_text encode doc chunk_size separators = Inr []"
    by (simp add: chunk_text_def split_recursive_blank)
next
  assume h: "filter (\<lambda>q. strip q \<noteq> []) (str_split [NL, NL] doc) = [p]
        \<and> encode p = Inr tokens \<and> int (length tokens) \<le> chunk_size"
  have blank: "strip [NL, NL] = []" by (simp add: strip_blank_iff is_space_def NL_def)
  show same: "strip p = strip doc"
    by (rule strip_only_piece[OF _ blank]) (use h in simp_all)
  have "p \<in> set (filter (\<lambda>q. strip q \<noteq> []) (str_split [NL, NL] doc))" using h by simp
  then have nonblank: "strip doc \<noteq> []" using same by simp
  from h have h1: "filter (\<lambda>q. strip q \<noteq> []) (str_split [NL, NL] doc) = [p]"
    and h2: "encode p = Inr tokens" and h3: "int (length tokens) \<le> chunk_size"
    by simp_all
  have "split_recursive encode chunk_size doc ([NL, NL] # [[NL], ''. '', '' '', '''']) = Inr [p]"
    by (rule split_recursive_only_piece[where encode = encode and p = p, OF _ h1 h2 h3]) simp
  then show "chunk_text encode doc chunk_size None =
          (case encode (strip doc) of
             Inl e \<Rightarrow> Inl e
           | Inr trimmed \<Rightarrow>
               Inr [\<lparr>chunk_id = 0, text_of = strip doc, token_count = length trimmed,
                     start_pos = 0, end_pos = length (strip doc)\<rparr>])"
    using nonblank same
    by (simp add: chunk_text_def default_separators_def Let_def on_results_def split: sum.splits
             del: split_recursive.simps)
next
  assume h: "filter (\<lambda>q. strip q \<noteq> []) (str_split [NL, NL] doc) = [p] \<and> encode p = Inl e"
  from h have h1: "filter (\<lambda>q. strip q \<noteq> []) (str_split [NL, NL] doc) = [p]"
    and h2: "encode p = Inl e"
    by simp_all
  have "split_recursive encode chunk_size doc ([NL, NL] # [[NL], ''. '', '' '', '''']) = Inl e"
    by (rule split_recursive_only_piece_raises[where encode = encode and p = p, OF _ h1 h2]) simp
  then show "chunk_text encode doc chunk_size None = Inl e"
    by (simp add: chunk_text_def default_separators_def del: split_recursive.simps)
next
  assume "strip doc \<noteq> [] \<and> \<not> sublist [NL, NL] doc"
  then show "filter (\<lambda>q. strip q \<noteq> []) (str_split [NL, NL] doc) = [doc]"
    by (simp add: str_split_def split_from_absent)
qed

text \<open>
  The theorem of C8 at a whitespace-only text, at a one-line text, at a text whose
  paragraph is followed by a paragraph break, and at a text that the tokenizer
  rejects.
\<close>

theorem chunk_text_blank_or_single_witness:
  "strip ''   '' = [] \<and> chunk_text byte_encode ''   '' 512 None = Inr []
   \<and> filter (\<lambda>q. strip q \<noteq> []) (str_split [NL, NL] ''  hello world  '') = [''  hello world  '']
   \<and> byte_encode ''  hello world  '' = Inr (map of_char ''  hello world  '')
   \<and> int (length (map of_char ''  hello world  '' :: nat list)) \<le> 512
   \<and> chunk_text byte_encode ''  hello world  '' 512 None =
      Inr [\<lparr>chunk_id = 0, text_of = ''hello world'', token_count = 11, start_pos = 0, end_pos = 11\<rparr>]
   \<and> filter (\<lambda>q. strip q \<noteq> []) (str_split [NL, NL] [CHR ''a'', NL, NL]) = [''a'']
   \<and> chunk_text byte_encode [CHR ''a'', NL, NL] 512 None =
      Inr [\<lparr>chunk_id = 0, text_of = ''a'', token_count = 1, start_pos = 0, end_pos = 1\<rparr>]
   \<and> filter (\<lambda>q. strip q \<noteq> []) (str_split [NL, NL] ''<|endoftext|>'') = [''<|endoftext|>'']
   \<and> guarded_encode ''<|endoftext|>'' = Inl ValueError
   \<and> chunk_text guarded_encode ''<|endoftext|>'' 512 None = Inl ValueError"
proof -
  have a: "strip ''   '' = []" by code_simp
  from chunk_text_blank_or_single[of "''   ''" byte_encode 512 None] a
  have b: "chunk_text byte_encode ''   '' 512 None = Inr []" by blast
  have c: "filter (\<lambda>q. strip q \<noteq> []) (str_split [NL, NL] ''  hello world  '') = [''  hello world  '']"
    by code_simp
  have d: "byte_encode ''  hello world  '' = Inr (map of_char ''  hello world  '')"
    by (simp add: byte_encode_def)
  have e: "int (length (map of_char ''  hello world  '' :: nat list)) \<le> 512" by simp
  have f: "strip ''  hello world  '' = ''hello world''" by code_simp
  have g: "byte_encode ''hello world'' = Inr (map of_char ''hello world'')"
    by (simp add: byte_encode_def)
  from chunk_text_blank_or_single[of "''  hello world  ''" byte_encode 512 None
      "''  hello world  ''" "map of_char ''  hello world  ''"] c d e
  have h: "chunk_text byte_encode ''  hello world  '' 512 None =
      Inr [\<lparr>chunk_id = 0, text_of = ''hello world'', token_count = 11, start_pos = 0, end_pos = 11\<rparr>]"
    unfolding f g by simp
  have i: "filter (\<lambda>q. strip q \<noteq> []) (str_split [NL, NL] [CHR ''a'', NL, NL]) = [''a'']"
    by code_simp
  have j: "byte_encode ''a'' = Inr [97]" by code_simp
  have k: "strip [CHR ''a'', NL, NL] = ''a''" by code_simp
  from chunk_text_blank_or_single[of "[CHR ''a'', NL, NL]" byte_encode 512 None "''a''" "[97]"] i j
  have l: "chunk_text byte_encode [CHR ''a'', NL, NL] 512 None =
      Inr [\<lparr>chunk_id = 0, text_of = ''a'', token_count = 1, start_pos = 0, end_pos = 1\<rparr>]"
    unfolding k j by simp
  have m: "filter (\<lambda>q. strip q \<noteq> []) (str_split [NL, NL] ''<|endoftext|>'') = [''<|endoftext|>'']"
    by code_simp
  have n: "guarded_encode ''<|endoftext|>'' = Inl ValueError" by code_simp
  from chunk_text_blank_or_single[of "''<|endoftext|>''" guarded_encode 512 None
      "''<|endoftext|>''" _ ValueError] m n
  have o: "chunk_text guarded_encode ''<|endoftext|>'' 512 None = Inl ValueError" by blast
  from a b c d e h i l m n o show ?thesis by blast
qed

text \<open>
  Claim C8 as stated fails on a text with two paragraphs: the four characters
  \<open>a\<close>, newline, newline, \<open>b\<close> are far below a budget of 512 tokens, and the
  chunker still returns two chunks, since it splits on the first separator before it
  counts any tokens.
\<close>

theorem chunk_text_single_counterexample:
  "byte_encode [CHR ''a'', NL, NL, CHR ''b''] = Inr [97, 10, 10, 98]
   \<and> int (length [97::nat, 10, 10, 98]) < 512
   \<and> chunk_text byte_encode [CHR ''a'', NL, NL, CHR ''b''] 512 None =
      Inr [\<lparr>chunk_id = 0, text_of = ''a'', token_count = 1, start_pos = 0, end_pos = 1\<rparr>,
           \<lparr>chunk_id = 1, text_of = ''b'', token_count = 1, start_pos = 1, end_pos = 2\<rparr>]"
  by code_simp

text \<open>
  The two chunks do not depend on the tokenizer: with any tokenizer that accepts the
  two letters and any budget of at least 1, a piece of one letter comes back as it is
  from every level of the splitting, so the two paragraphs are two chunks.
\<close>

lemma windows_single: "0 < n \<Longrightarrow> windows n [c] = [[c]]"
  by (simp add: windows.simps[of n "[c]"] windows.simps[of n "[]"])

lemma strip_letter: "\<not> is_space c \<Longrightarrow> strip [c] = [c]"
  by (simp add: strip_def)

lemma split_recursive_letter:
  assumes "1 \<le> B" and "\<not> is_space c" and "\<forall>sep \<in> set seps. sep = [] \<or> \<not> sublist sep [c]"
    and "encode [c] = Inr tokens"
  shows "split_recursive encode B [c] seps = Inr [[c]]"
  using assms(3)
proof (induction seps)
  case Nil
  then show ?case using assms(2) by (simp add: strip_letter)
next
  case (Cons sep seps)
  show ?case
  proof (cases "sep = []")
    case True
    then show ?thesis
      using assms(1,2) by (simp add: strip_letter char_windows_def windows_single)
  next
    case False
    with Cons.prems have "\<not> sublist sep [c]" by simp
    then have "str_split sep [c] = [[c]]"
      unfolding str_split_def by (subst split_from_absent) simp_all
    moreover have "split_recursive encode B [c] seps = Inr [[c]]"
      using Cons by simp
    ultimately show ?thesis
      using False assms(2,4)
      by (simp add: strip_letter split_recursive_separator del: split_recursive.simps)
  qed
qed

lemma chunk_text_paragraphs_any_tokenizer:
  assumes "1 \<le> B" and "encode ''a'' = Inr first_tokens" and "encode ''b'' = Inr second_tokens"
  shows "chunk_text encode [CHR ''a'', NL, NL, CHR ''b''] B None =
           Inr [\<lparr>chunk_id = 0, text_of = ''a'', token_count = length first_tokens, start_pos = 0, end_pos = 1\<rparr>,
                \<lparr>chunk_id = 1, text_of = ''b'', token_count = length second_tokens, start_pos = 1, end_pos = 2\<rparr>]"
proof -
  have sp: "\<not> is_space (CHR ''a'')" "\<not> is_space (CHR ''b'')"
    by (simp_all add: is_space_def)
  have seps: "\<forall>sep \<in> set [[NL], ''. '', '' '', ''''].  sep = [] \<or> \<not> sublist sep [c]"
    if "c = CHR ''a'' \<or> c = CHR ''b''" for c
    using that by (auto simp: NL_def sublist_Cons_right)
  have a: "split_recursive encode B ''a'' [[NL], ''. '', '' '', ''''] = Inr [''a'']"
    by (rule split_recursive_letter[where encode = encode and c = "CHR ''a''", OF assms(1) sp(1) _ assms(2)],
        rule seps, simp)
  have b: "split_recursive encode B ''b'' [[NL], ''. '', '' '', ''''] = Inr [''b'']"
    by (rule split_recursive_letter[where encode = encode and c = "CHR ''b''", OF assms(1) sp(2) _ assms(3)],
        rule seps, simp)
  have split: "str_split [NL, NL] [CHR ''a'', NL, NL, CHR ''b''] = [''a'', ''b'']"
    by (simp add: str_split_def NL_def)
  have nonblank: "strip [CHR ''a'', NL, NL, CHR ''b''] \<noteq> []"
    by (simp add: strip_def is_space_def NL_def)
  have "split_recursive encode B [CHR ''a'', NL, NL, CHR ''b''] default_separators
        = Inr [''a'', ''b'']"
    unfolding default_separators_def
    by (subst split_recursive_separator[OF nonblank])
       (simp_all add: split a b strip_letter sp assms(2,3) del: split_recursive.simps)
  then show ?thesis
    by (simp add: chunk_text_def Let_def strip_letter sp assms(2,3) on_results_def)
qed

subsection \<open>No empty chunk\<close>

text \<open>
  Claim C10. For every tokenizer, text, budget and separator list, every chunk that
  \<open>chunk_text\<close> returns has a text that is not empty after trimming (the text is
  already trimmed, so trimming leaves it as it is).
\<close>

theorem chunk_text_nonempty:
  assumes "chunk_text encode doc chunk_size separators = Inr chunks" and "c \<in> set chunks"
  shows "strip (text_of c) \<noteq> [] \<and> strip (text_of c) = text_of c"
proof -
  from assms(1) obtain raws where "build_chunks encode 0 0 raws = Inr chunks"
    by (auto simp: chunk_text_def Let_def split: sum.splits)
  from build_chunks_mem[OF this assms(2)]
  obtain raw where "strip raw \<noteq> []" "text_of c = strip raw" by blast
  then show ?thesis by (simp add: strip_idem)
qed

text \<open>
  The theorem of C10 at a concrete text.
\<close>

theorem chunk_text_nonempty_witness:
  "chunk_text byte_encode ''  hello world  '' 5 None =
     Inr [\<lparr>chunk_id = 0, text_of = ''hello'', token_count = 5, start_pos = 0, end_pos = 5\<rparr>,
          \<lparr>chunk_id = 1, text_of = ''world'', token_count = 5, start_pos = 5, end_pos = 10\<rparr>]
   \<and> strip ''hello'' \<noteq> [] \<and> strip ''hello'' = ''hello''"
proof -
  let ?c0 = "\<lparr>chunk_id = 0, text_of = ''hello'', token_count = 5, start_pos = 0, end_pos = 5\<rparr>"
  let ?c1 = "\<lparr>chunk_id = 1, text_of = ''world'', token_count = 5, start_pos = 5, end_pos = 10\<rparr>"
  have run: "chunk_text byte_encode ''  hello world  '' 5 None = Inr [?c0, ?c1]"
    by code_simp
  have mem: "?c0 \<in> set [?c0, ?c1]" by simp
  from chunk_text_nonempty[OF run mem] run show ?thesis by simp
qed

section \<open>Properties of the retrievers\<close>

subsection \<open>Lists, slices and the stable sort\<close>

lemma sequence_singletons:
  "\<forall>x \<in> set xs. g x = Inr [f x] \<Longrightarrow> sequence (map g xs) = Inr (map f xs)"
  by (induction xs) auto

lemma py_slice_to_nonneg: "0 \<le> k \<Longrightarrow> py_slice_to k xs = take (nat k) xs"
  by (simp add: py_slice_to_def)

lemma set_py_slice_to: "set (py_slice_to k xs) \<subseteq> set xs"
  by (auto simp: py_slice_to_def dest: in_set_takeD)

lemma py_slice_to_map: "py_slice_to k (map f xs) = map f (py_slice_to k xs)"
  by (simp add: py_slice_to_def take_map)

lemma py_index_nat: "i < length xs \<Longrightarrow> py_index xs (int i) = Inr (xs ! i)"
  by (simp add: py_index_def)

lemma set_sort_desc: "set (sort_desc key xs) = set xs"
  by (simp add: sort_desc_def)

lemma length_sort_desc: "length (sort_desc key xs) = length xs"
  by (simp add: sort_desc_def)

lemma distinct_sort_desc: "distinct (sort_desc key xs) = distinct xs"
  by (simp add: sort_desc_def)

lemma distinct_py_slice_to: "distinct xs \<Longrightarrow> distinct (py_slice_to k xs)"
  by (simp add: py_slice_to_def)

lemma py_index_last: "xs \<noteq> [] \<Longrightarrow> py_index xs (- 1) = Inr (last xs)"
  by (cases xs rule: rev_cases) (auto simp: py_index_def nth_append)

text \<open>
  \<open>sort_desc\<close> is a stable descending sort: its result is in descending order of
  key, and the elements of one key keep their order.
\<close>

lemma sort_desc_descending: "sorted_wrt (\<lambda>x y. key x \<ge> key y) (sort_desc key xs)"
proof -
  have "sorted (map (\<lambda>x. - key x) (sort_key (\<lambda>x. - key x) xs))" by (rule sorted_sort_key)
  then show ?thesis
    by (simp add: sort_desc_def sorted_map) 
qed

lemma sort_desc_stable:
  "filter (\<lambda>x. key x = v) (sort_desc key xs) = filter (\<lambda>x. key x = v) xs"
proof -
  have "filter (\<lambda>x. - key x = - v) (sort_key (\<lambda>x. - key x) xs) = filter (\<lambda>x. - key x = - v) xs"
    by (rule sort_key_stable)
  then show ?thesis by (simp add: sort_desc_def)
qed

lemma sort_key_constant: "\<forall>x \<in> set xs. f x = c \<Longrightarrow> sort_key f xs = xs"
proof (induction xs)
  case Nil
  then show ?case by simp
next
  case (Cons x xs)
  then have "sort_key f xs = xs" by simp
  moreover have "insort_key f x xs = x # xs"
    using Cons.prems by (cases xs) auto
  ultimately show ?case by simp
qed

lemma insort_key_ranked:
  assumes "sorted_wrt (ranked_before scores) ys" and "\<forall>y \<in> set ys. x < y"
  shows "sorted_wrt (ranked_before scores) (insort_key (\<lambda>i. - (scores ! i)) x ys)"
  using assms
proof (induction ys)
  case Nil
  then show ?case by simp
next
  case (Cons y ys)
  show ?case
  proof (cases "scores ! y \<le> scores ! x")
    case True
    have "ranked_before scores x z" if "z \<in> set (y # ys)" for z
    proof -
      have "scores ! z \<le> scores ! y"
        using that Cons.prems(1) by (auto simp: ranked_before_def)
      moreover have "x < z" using that Cons.prems(2) by auto
      ultimately show ?thesis using True by (auto simp: ranked_before_def)
    qed
    with True Cons.prems(1) show ?thesis by simp
  next
    case False
    then have "ranked_before scores y x" by (simp add: ranked_before_def)
    moreover have "sorted_wrt (ranked_before scores) (insort_key (\<lambda>i. - (scores ! i)) x ys)"
      using Cons by simp
    ultimately show ?thesis using False Cons.prems(1) by (auto simp: set_insort_key)
  qed
qed

lemma sort_desc_ranked:
  "sorted_wrt (<) xs \<Longrightarrow> sorted_wrt (ranked_before scores) (sort_desc (\<lambda>i. scores ! i) xs)"
proof (induction xs)
  case Nil
  then show ?case by (simp add: sort_desc_def)
next
  case (Cons x xs)
  have "sorted_wrt (ranked_before scores) (sort_key (\<lambda>i. - (scores ! i)) xs)"
    using Cons by (simp add: sort_desc_def)
  moreover have "\<forall>y \<in> set (sort_key (\<lambda>i. - (scores ! i)) xs). x < y"
    using Cons.prems by simp
  ultimately show ?case
    by (simp add: sort_desc_def insort_key_ranked)
qed

subsection \<open>The lexical retriever\<close>

lemma length_get_scores: "length (get_scores ix query) = corpus_size ix"
proof -
  have "length (foldl (\<lambda>score q. map2 (+) score (map (term_score ix q) [0..<corpus_size ix])) acc query)
        = corpus_size ix" if "length acc = corpus_size ix" for acc
    using that by (induction query arbitrary: acc) auto
  then show ?thesis by (simp add: get_scores_def)
qed

lemma get_scores_no_tokens: "get_scores ix [] = replicate (corpus_size ix) 0"
  by (simp add: get_scores_def)

lemma BM25Retriever_init_Inr:
  assumes "BM25Retriever_init weight h chunks = Inr r"
  shows "bm25_chunks r = chunks" and "corpus_size (bm25 r) = length chunks" and "chunks \<noteq> []"
  using assms
  by (auto simp: BM25Retriever_init_def BM25Okapi_def on_results_def Let_def split: if_splits)

lemma BM25Retriever_search_built:
  assumes "BM25Retriever_init weight h chunks = Inr r"
  shows "BM25Retriever_search r query top_k =
         Inr (map (\<lambda>i. (chunks ! i, get_scores (bm25 r) (tokenize query) ! i))
                (py_slice_to top_k
                   (sort_desc (\<lambda>i. get_scores (bm25 r) (tokenize query) ! i) [0..<length chunks])))"
proof -
  let ?scores = "get_scores (bm25 r) (tokenize query)"
  let ?top = "py_slice_to top_k (sort_desc (\<lambda>i. ?scores ! i) [0..<length chunks])"
  have len: "length ?scores = length chunks"
    using BM25Retriever_init_Inr(2)[OF assms] by (simp add: length_get_scores)
  have "\<forall>i \<in> set ?top. i < length chunks"
    using set_py_slice_to[of top_k "sort_desc (\<lambda>i. ?scores ! i) [0..<length chunks]"]
    by (auto simp: set_sort_desc)
  then have "\<forall>i \<in> set ?top.
      on_results (\<lambda>c. [(c, ?scores ! i)]) (py_index (bm25_chunks r) (int i)) = Inr [(chunks ! i, ?scores ! i)]"
    using BM25Retriever_init_Inr(1)[OF assms] by (simp add: py_index_nat on_results_def)
  from sequence_singletons[OF this] len show ?thesis
    by (simp add: BM25Retriever_search_def Let_def)
qed

lemma BM25Retriever_search_distinct:
  assumes "BM25Retriever_init weight h chunks = Inr r" and "distinct chunks"
    and "BM25Retriever_search r query k = Inr results"
  shows "distinct (map fst results)"
proof -
  let ?scores = "get_scores (bm25 r) (tokenize query)"
  let ?top = "py_slice_to k (sort_desc (\<lambda>i. ?scores ! i) [0..<length chunks])"
  have "results = map (\<lambda>i. (chunks ! i, ?scores ! i)) ?top"
    using assms(3) unfolding BM25Retriever_search_built[OF assms(1)] by simp
  then have "map fst results = map (\<lambda>i. chunks ! i) ?top" by (simp add: comp_def)
  moreover have "distinct ?top" by (simp add: distinct_py_slice_to distinct_sort_desc)
  moreover have "\<forall>i \<in> set ?top. i < length chunks"
    using set_py_slice_to[of k "sort_desc (\<lambda>i. ?scores ! i) [0..<length chunks]"]
    by (auto simp: set_sort_desc)
  ultimately show ?thesis
    using assms(2) by (auto simp: distinct_map intro: inj_on_nth)
qed

lemma demo_bm25_built: "BM25Retriever_init count_weight demo_heap [0, 1, 2] = Inr demo_bm25"
  by (simp add: demo_bm25_def BM25Retriever_init_def BM25Okapi_def on_results_def Let_def)

lemma demo_embedding_built:
  "EmbeddingRetriever_init demo_encode demo_heap [0, 1, 2] = Inr demo_embedding"
  by (simp add: demo_embedding_def EmbeddingRetriever_init_def Let_def)

lemma demo_hybrid_built:
  "HybridRetriever_init count_weight demo_encode demo_heap [0, 1, 2] = Inr demo_hybrid"
  by (simp add: demo_hybrid_def HybridRetriever_init_def BM25Retriever_init_def BM25Okapi_def
      on_results_def EmbeddingRetriever_init_def Let_def)

lemma demo_hybrid_two_built:
  "HybridRetriever_init count_weight demo_encode demo_heap [0, 1] = Inr demo_hybrid_two"
  by (simp add: demo_hybrid_two_def HybridRetriever_init_def BM25Retriever_init_def BM25Okapi_def
      on_results_def EmbeddingRetriever_init_def Let_def)

text \<open>
  Two lists of the same positions, both in the order of \<open>ranked_before\<close>, are the
  same list: the ranking of a score vector is unique.
\<close>

lemma ranked_before_unique:
  assumes "sorted_wrt (ranked_before scores) xs" and "sorted_wrt (ranked_before scores) ys"
    and "set xs = set ys"
  shows "xs = ys"
  using assms
proof (induction xs arbitrary: ys)
  case Nil
  then show ?case by simp
next
  case (Cons x xs)
  from Cons.prems(3) obtain y ys' where ys: "ys = y # ys'" by (cases ys) auto
  have irrefl: "\<not> ranked_before scores i i" for i by (simp add: ranked_before_def)
  have asym: "ranked_before scores i j \<Longrightarrow> \<not> ranked_before scores j i" for i j
    by (auto simp: ranked_before_def)
  have x: "\<forall>z \<in> set xs. ranked_before scores x z" using Cons.prems(1) by simp
  have y: "\<forall>z \<in> set ys'. ranked_before scores y z" using Cons.prems(2) ys by simp
  have x_fresh: "x \<notin> set xs" using x irrefl by blast
  have y_fresh: "y \<notin> set ys'" using y irrefl by blast
  have same: "x = y"
  proof (rule ccontr)
    assume "x \<noteq> y"
    then have "x \<in> set ys'" "y \<in> set xs" using Cons.prems(3) ys by auto
    then have "ranked_before scores y x" "ranked_before scores x y" using x y by blast+
    then show False using asym by blast
  qed
  have "set xs = set ys'" using Cons.prems(3) ys same x_fresh y_fresh by auto
  moreover have "sorted_wrt (ranked_before scores) xs" "sorted_wrt (ranked_before scores) ys'"
    using Cons.prems(1,2) ys by simp_all
  ultimately have "xs = ys'" using Cons.IH by blast
  with same ys show ?case by simp
qed

text \<open>
  Claim C5. For a retriever built over a chunk list, every query and every \<open>k \<ge> 0\<close>:
  there is a ranking of all the positions of the collection, each position once, in
  descending order of the BM25 score that \<open>get_scores\<close> gives the position for the
  tokenized query, positions of equal score in the order of the collection; it is
  the only such list; and \<open>search\<close> returns exactly the chunks at the first \<open>k\<close>
  positions of this ranking, in this order, each paired with the score of its
  position. So it returns \<open>k\<close> pairs, or all the chunks when there are fewer.
\<close>

theorem BM25Retriever_search_ranked:
  assumes "BM25Retriever_init weight h chunks = Inr r" and "0 \<le> k"
  shows "\<exists>ranking.
           set ranking = {..<length chunks} \<and> distinct ranking
           \<and> sorted_wrt (ranked_before (get_scores (bm25 r) (tokenize query))) ranking
           \<and> (\<forall>other. set other = {..<length chunks}
                  \<and> sorted_wrt (ranked_before (get_scores (bm25 r) (tokenize query))) other
                \<longrightarrow> other = ranking)
           \<and> BM25Retriever_search r query k =
               Inr (map (\<lambda>i. (chunks ! i, get_scores (bm25 r) (tokenize query) ! i))
                      (take (nat k) ranking))
           \<and> length (take (nat k) ranking) = min (nat k) (length chunks)"
proof -
  let ?scores = "get_scores (bm25 r) (tokenize query)"
  let ?ranking = "sort_desc (\<lambda>i. ?scores ! i) [0..<length chunks]"
  have top: "py_slice_to k ?ranking = take (nat k) ?ranking"
    using assms(2) by (rule py_slice_to_nonneg)
  have all: "set ?ranking = {..<length chunks}" by (auto simp: set_sort_desc)
  have once: "distinct ?ranking" by (simp add: distinct_sort_desc)
  have ranked: "sorted_wrt (ranked_before ?scores) ?ranking"
    by (rule sort_desc_ranked) simp
  have only: "\<forall>other. set other = {..<length chunks} \<and> sorted_wrt (ranked_before ?scores) other
                \<longrightarrow> other = ?ranking"
    using ranked_before_unique[OF _ ranked] all by blast
  have result: "BM25Retriever_search r query k =
      Inr (map (\<lambda>i. (chunks ! i, ?scores ! i)) (take (nat k) ?ranking))"
    unfolding BM25Retriever_search_built[OF assms(1)] top ..
  have count: "length (take (nat k) ?ranking) = min (nat k) (length chunks)"
    by (simp add: length_sort_desc)
  from all once ranked only result count show ?thesis by blast
qed

text \<open>
  The theorem of C5 on the demo corpus, for the query \<open>dogs\<close> and \<open>k = 2\<close>: the
  scores of the three chunks are 0, 1 and 0, so the ranking is 1, 0, 2.
\<close>

theorem BM25Retriever_search_ranked_witness:
  "BM25Retriever_init count_weight demo_heap [0, 1, 2] = Inr demo_bm25 \<and> (0::int) \<le> 2
   \<and> get_scores (bm25 demo_bm25) (tokenize ''dogs'') = [0, 1, 0]
   \<and> BM25Retriever_search demo_bm25 ''dogs'' 2 = Inr [(1, 1), (0, 0)]
   \<and> (\<exists>ranking.
         set ranking = {..<length [0::nat, 1, 2]} \<and> distinct ranking
         \<and> sorted_wrt (ranked_before (get_scores (bm25 demo_bm25) (tokenize ''dogs''))) ranking
         \<and> (\<forall>other. set other = {..<length [0::nat, 1, 2]}
                \<and> sorted_wrt (ranked_before (get_scores (bm25 demo_bm25) (tokenize ''dogs''))) other
              \<longrightarrow> other = ranking)
         \<and> BM25Retriever_search demo_bm25 ''dogs'' 2 =
             Inr (map (\<lambda>i. ([0, 1, 2] ! i, get_scores (bm25 demo_bm25) (tokenize ''dogs'') ! i))
                    (take (nat 2) ranking))
         \<and> length (take (nat 2) ranking) = min (nat 2) (length [0::nat, 1, 2]))"
proof -
  have k: "(0::int) \<le> 2" by simp
  have scores: "get_scores (bm25 demo_bm25) (tokenize ''dogs'') = [0, 1, 0]" by code_simp
  have run: "BM25Retriever_search demo_bm25 ''dogs'' 2 = Inr [(1, 1), (0, 0)]" by code_simp
  note inst = BM25Retriever_search_ranked[OF demo_bm25_built k, of "''dogs''"]
  from demo_bm25_built k scores run inst show ?thesis by (intro conjI)
qed

text \<open>
  Claim C7. For a retriever built over a chunk list and a query whose tokenization is
  empty, \<open>search\<close> raises nothing and returns the chunks in the order of the
  collection, each with the score 0, cut to \<open>top_k\<close>; over three chunks and with the
  default \<open>top_k = 5\<close> it returns all three.
\<close>

theorem BM25Retriever_search_no_tokens:
  assumes "BM25Retriever_init weight h chunks = Inr r" and "tokenize query = []"
  shows "BM25Retriever_search r query top_k = Inr (py_slice_to top_k (map (\<lambda>c. (c, 0)) chunks))
       \<and> (length chunks = 3 \<longrightarrow> BM25Retriever_search r query 5 = Inr (map (\<lambda>c. (c, 0)) chunks))"
proof -
  let ?n = "length chunks"
  have scores: "get_scores (bm25 r) (tokenize query) = replicate ?n 0"
    using BM25Retriever_init_Inr(2)[OF assms(1)] assms(2) by (simp add: get_scores_no_tokens)
  have order: "sort_desc (\<lambda>i. replicate ?n (0::real) ! i) [0..<?n] = [0..<?n]"
    unfolding sort_desc_def by (rule sort_key_constant[where c = 0]) simp
  have general: "BM25Retriever_search r query k = Inr (py_slice_to k (map (\<lambda>c. (c, 0)) chunks))" for k
  proof -
    have "map (\<lambda>i. (chunks ! i, replicate ?n (0::real) ! i)) (py_slice_to k [0..<?n])
          = map (\<lambda>i. (chunks ! i, 0)) (py_slice_to k [0..<?n])"
      using set_py_slice_to[of k "[0..<?n]"] by (intro map_cong) auto
    also have "\<dots> = py_slice_to k (map (\<lambda>i. (chunks ! i, 0)) [0..<?n])"
      by (simp add: py_slice_to_map)
    also have "map (\<lambda>i. (chunks ! i, 0::real)) [0..<?n] = map (\<lambda>c. (c, 0)) (map (\<lambda>i. chunks ! i) [0..<?n])"
      by simp
    also have "map (\<lambda>i. chunks ! i) [0..<?n] = chunks" by (rule map_nth)
    finally show ?thesis
      unfolding BM25Retriever_search_built[OF assms(1)] scores order by simp
  qed
  have "py_slice_to 5 (map (\<lambda>c. (c, 0::real)) chunks) = map (\<lambda>c. (c, 0)) chunks" if "length chunks = 3"
    using that by (simp add: py_slice_to_def)
  with general show ?thesis by simp
qed

text \<open>
  The theorem of C7 on the demo corpus, for a query of punctuation only.
\<close>

theorem BM25Retriever_search_no_tokens_witness:
  "BM25Retriever_init count_weight demo_heap [0, 1, 2] = Inr demo_bm25 \<and> tokenize ''?! ...'' = []
   \<and> length [0::nat, 1, 2] = 3
   \<and> BM25Retriever_search demo_bm25 ''?! ...'' 5 = Inr [(0, 0), (1, 0), (2, 0)]"
proof -
  have tok: "tokenize ''?! ...'' = []" by code_simp
  from BM25Retriever_search_no_tokens[OF demo_bm25_built tok, of 5, THEN conjunct2]
  have "BM25Retriever_search demo_bm25 ''?! ...'' 5 = Inr [(0, 0), (1, 0), (2, 0)]" by simp
  with demo_bm25_built tok show ?thesis by simp
qed

subsection \<open>Thresholds\<close>

text \<open>
  Claim C6. On both retrievers, \<open>search_with_threshold\<close> is \<open>search\<close> with the same
  \<open>k\<close>, filtered to the pairs whose score is at least the threshold (and raises when
  \<open>search\<close> raises); so every score it returns is at least the threshold, and a
  higher threshold never returns more pairs.
\<close>

theorem search_with_threshold_filters:
  "BM25Retriever_search_with_threshold b query t k =
     (case BM25Retriever_search b query k of
        Inl e \<Rightarrow> Inl e | Inr results \<Rightarrow> Inr (filter (\<lambda>(c, score). t \<le> score) results))
   \<and> EmbeddingRetriever_search_with_threshold e query t k =
     (case EmbeddingRetriever_search e query k of
        Inl e \<Rightarrow> Inl e | Inr results \<Rightarrow> Inr (filter (\<lambda>(c, score). t \<le> score) results))
   \<and> (\<forall>filtered. BM25Retriever_search_with_threshold b query t k = Inr filtered \<or>
                   EmbeddingRetriever_search_with_threshold e query t k = Inr filtered \<longrightarrow>
          (\<forall>(c, score) \<in> set filtered. t \<le> score))
   \<and> (t \<le> t' \<longrightarrow>
         (\<forall>lower higher.
             BM25Retriever_search_with_threshold b query t k = Inr lower \<and>
             BM25Retriever_search_with_threshold b query t' k = Inr higher \<longrightarrow>
             length higher \<le> length lower)
       \<and> (\<forall>lower higher.
             EmbeddingRetriever_search_with_threshold e query t k = Inr lower \<and>
             EmbeddingRetriever_search_with_threshold e query t' k = Inr higher \<longrightarrow>
             length higher \<le> length lower))"
proof -
  have mono: "length (filter (\<lambda>(c, score). t' \<le> score) rs) \<le> length (filter (\<lambda>(c, score). t \<le> score) rs)"
    if "t \<le> t'" for rs :: "(ref \<times> real) list"
  proof -
    have "filter (\<lambda>(c, score). t' \<le> score) rs
          = filter (\<lambda>(c, score). t' \<le> score) (filter (\<lambda>(c, score). t \<le> score) rs)"
      using that by (auto intro!: filter_cong)
    then show ?thesis by (metis length_filter_le)
  qed
  have a: "BM25Retriever_search_with_threshold b query t k =
     (case BM25Retriever_search b query k of
        Inl e \<Rightarrow> Inl e | Inr results \<Rightarrow> Inr (filter (\<lambda>(c, score). t \<le> score) results))" for t
    by (simp add: BM25Retriever_search_with_threshold_def on_results_def)
  have b: "EmbeddingRetriever_search_with_threshold e query t k =
     (case EmbeddingRetriever_search e query k of
        Inl e \<Rightarrow> Inl e | Inr results \<Rightarrow> Inr (filter (\<lambda>(c, score). t \<le> score) results))" for t
    by (simp add: EmbeddingRetriever_search_with_threshold_def on_results_def)
  have c: "\<forall>(c, score) \<in> set filtered. t \<le> score"
    if "BM25Retriever_search_with_threshold b query t k = Inr filtered \<or>
        EmbeddingRetriever_search_with_threshold e query t k = Inr filtered" for filtered
    using that unfolding a b by (auto split: sum.splits)
  have d: "length higher \<le> length lower"
    if "t \<le> t'" "BM25Retriever_search_with_threshold b query t k = Inr lower"
       "BM25Retriever_search_with_threshold b query t' k = Inr higher" for lower higher
    using that(2,3) mono[OF that(1)] unfolding a by (auto split: sum.splits)
  have e: "length higher \<le> length lower"
    if "t \<le> t'" "EmbeddingRetriever_search_with_threshold e query t k = Inr lower"
       "EmbeddingRetriever_search_with_threshold e query t' k = Inr higher" for lower higher
    using that(2,3) mono[OF that(1)] unfolding b by (auto split: sum.splits)
  from a[of t] b[of t] c d e show ?thesis by blast
qed

text \<open>
  The theorem of C6 on the demo corpus, for the thresholds 1/2 and 1.
\<close>

theorem search_with_threshold_filters_witness:
  "((1 / 2 :: real) \<le> 1)
   \<and> BM25Retriever_search demo_bm25 ''dogs bark dogs'' 3 = Inr [(1, 3), (0, 0), (2, 0)]
   \<and> BM25Retriever_search_with_threshold demo_bm25 ''dogs bark dogs'' (1 / 2) 3 = Inr [(1, 3)]
   \<and> BM25Retriever_search_with_threshold demo_bm25 ''dogs bark dogs'' 1 3 = Inr [(1, 3)]
   \<and> EmbeddingRetriever_search demo_embedding ''dogs bark dogs'' 3 = Inr [(1, 1), (2, 4 / 5), (0, 0)]
   \<and> EmbeddingRetriever_search_with_threshold demo_embedding ''dogs bark dogs'' (1 / 2) 3 = Inr [(1, 1), (2, 4 / 5)]
   \<and> EmbeddingRetriever_search_with_threshold demo_embedding ''dogs bark dogs'' 1 3 = Inr [(1, 1)]
   \<and> (1 / 2 :: real) \<le> 4 / 5
   \<and> length [(1::ref, 1::real)] \<le> length [(1::ref, 1::real), (2, 4 / 5)]"
proof -
  note inst = search_with_threshold_filters[of demo_bm25 "''dogs bark dogs''" "1 / 2" 3
      demo_embedding 1]
  have le: "(1 / 2 :: real) \<le> 1" by simp
  have s1: "BM25Retriever_search demo_bm25 ''dogs bark dogs'' 3 = Inr [(1, 3), (0, 0), (2, 0)]"
    by code_simp
  have s2: "EmbeddingRetriever_search demo_embedding ''dogs bark dogs'' 3 = Inr [(1, 1), (2, 4 / 5), (0, 0)]"
    by code_simp
  have b1: "BM25Retriever_search_with_threshold demo_bm25 ''dogs bark dogs'' (1 / 2) 3 = Inr [(1, 3)]"
    using inst[THEN conjunct1] by (simp add: s1)
  have b2: "BM25Retriever_search_with_threshold demo_bm25 ''dogs bark dogs'' 1 3 = Inr [(1, 3)]"
    by code_simp
  have e1: "EmbeddingRetriever_search_with_threshold demo_embedding ''dogs bark dogs'' (1 / 2) 3 = Inr [(1, 1), (2, 4 / 5)]"
    using inst[THEN conjunct2, THEN conjunct1] by (simp add: s2)
  have e2: "EmbeddingRetriever_search_with_threshold demo_embedding ''dogs bark dogs'' 1 3 = Inr [(1, 1)]"
    by code_simp
  have "\<forall>(c, score) \<in> set [(1::ref, 1::real), (2, 4 / 5)]. 1 / 2 \<le> score"
    using inst[THEN conjunct2, THEN conjunct2, THEN conjunct1] e1 by blast
  then have all: "(1 / 2 :: real) \<le> 4 / 5" by simp
  have len: "length [(1::ref, 1::real)] \<le> length [(1::ref, 1::real), (2, 4 / 5)]"
    using inst[THEN conjunct2, THEN conjunct2, THEN conjunct2] le e1 e2 by blast
  from le s1 b1 b2 s2 e1 e2 all len show ?thesis by blast
qed

subsection \<open>The semantic retriever and short collections\<close>

text \<open>
  What \<open>search\<close> returns on a retriever built over a chunk list, for every positive
  \<open>k\<close>: the best \<open>k\<close> chunks with their similarities, then, when the collection
  has fewer than \<open>k\<close> chunks, the last chunk once for each missing column, with the
  padding score.
\<close>

lemma EmbeddingRetriever_init_Inr:
  assumes "EmbeddingRetriever_init encode h chunks = Inr r"
  shows "emb_chunks r = chunks" and "model r = encode"
    and "index r = map (\<lambda>c. encode (text_of (h c))) chunks" and "chunks \<noteq> []"
  using assms
  by (auto simp: EmbeddingRetriever_init_def Let_def split: list.splits)

lemma EmbeddingRetriever_search_built:
  assumes "EmbeddingRetriever_init encode h chunks = Inr r" and "0 < k"
  shows "EmbeddingRetriever_search r query k =
     (let sims = map (inner_product (encode query)) (index r);
          best = take (nat k) (sort_desc (\<lambda>i. sims ! i) [0..<length chunks])
      in Inr (map (\<lambda>i. (chunks ! i, sims ! i)) best
              @ replicate (nat k - length best) (last chunks, pad_score)))"
proof -
  note built = EmbeddingRetriever_init_Inr[OF assms(1)]
  define sims where "sims = map (inner_product (encode query)) (index r)"
  define best where "best = take (nat k) (sort_desc (\<lambda>i. sims ! i) [0..<length chunks])"
  define missing where "missing = nat k - length best"
  define pick where "pick = (\<lambda>(idx :: int, score :: real).
      (if idx < 0 then last chunks else chunks ! nat idx, score))"
  have len: "length (index r) = length chunks" by (simp add: built(3))
  have search: "index_search (index r) (encode query) k =
      Inr (map (\<lambda>i. sims ! i) best @ replicate missing pad_score,
           map int best @ replicate missing (- 1))"
    using assms(2) by (simp add: index_search_def Let_def sims_def best_def missing_def len)
  have zipped: "zip (map int best @ replicate missing (- 1))
                    (map (\<lambda>i. sims ! i) best @ replicate missing pad_score)
        = map (\<lambda>i. (int i, sims ! i)) best @ replicate missing (- 1, pad_score)"
    by (simp add: zip_map_map zip_same_conv_map)
  have in_range: "\<forall>i \<in> set best. i < length chunks"
    unfolding best_def by (auto simp: set_sort_desc dest: in_set_takeD)
  have each: "\<forall>x \<in> set (map (\<lambda>i. (int i, sims ! i)) best @ replicate missing (- 1, pad_score)).
      (case x of (idx, score) \<Rightarrow> on_results (\<lambda>c. [(c, score)]) (py_index (emb_chunks r) idx))
      = Inr [pick x]"
    using in_range built(4)
    by (auto simp: built(1) pick_def on_results_def py_index_nat py_index_last)
  have "EmbeddingRetriever_search r query k =
      Inr (map pick (map (\<lambda>i. (int i, sims ! i)) best @ replicate missing (- 1, pad_score)))"
    unfolding EmbeddingRetriever_search_def Let_def built(2) search sum.case prod.case zipped
    by (rule sequence_singletons[OF each])
  also have "map pick (map (\<lambda>i. (int i, sims ! i)) best @ replicate missing (- 1, pad_score))
      = map (\<lambda>i. (chunks ! i, sims ! i)) best @ replicate missing (last chunks, pad_score)"
    by (simp add: pick_def)
  finally show ?thesis
    by (simp add: Let_def sims_def best_def missing_def)
qed

lemma EmbeddingRetriever_search_short_collection:
  assumes "EmbeddingRetriever_init encode h chunks = Inr r" and "int (length chunks) < k"
  shows "\<exists>real_pairs.
           EmbeddingRetriever_search r query k =
             Inr (real_pairs @ replicate (nat k - length chunks) (last chunks, pad_score))
           \<and> length real_pairs = length chunks
           \<and> 0 < nat k - length chunks"
proof -
  have k: "0 < k" using assms(2) by simp
  define sims where "sims = map (inner_product (encode query)) (index r)"
  define best where "best = take (nat k) (sort_desc (\<lambda>i. sims ! i) [0..<length chunks])"
  have len: "length best = length chunks"
    using assms(2) by (simp add: best_def length_sort_desc)
  have "EmbeddingRetriever_search r query k =
          Inr (map (\<lambda>i. (chunks ! i, sims ! i)) best
               @ replicate (nat k - length chunks) (last chunks, pad_score))"
    unfolding EmbeddingRetriever_search_built[OF assms(1) k] Let_def
      sims_def[symmetric] best_def[symmetric] len ..
  moreover have "length (map (\<lambda>i. (chunks ! i, sims ! i)) best) = length chunks"
    by (simp add: len)
  moreover have "0 < nat k - length chunks" using assms(2) by simp
  ultimately show ?thesis by blast
qed

lemma EmbeddingRetriever_search_distinct:
  assumes "EmbeddingRetriever_init encode h chunks = Inr r" and "distinct chunks"
    and "0 < k" and "k \<le> int (length chunks)"
    and "EmbeddingRetriever_search r query k = Inr results"
  shows "distinct (map fst results)"
proof -
  define sims where "sims = map (inner_product (encode query)) (index r)"
  define best where "best = take (nat k) (sort_desc (\<lambda>i. sims ! i) [0..<length chunks])"
  have "length best = nat k"
    using assms(3,4) by (simp add: best_def length_sort_desc)
  then have "results = map (\<lambda>i. (chunks ! i, sims ! i)) best"
    using assms(5) unfolding EmbeddingRetriever_search_built[OF assms(1,3)]
    by (simp add: Let_def sims_def best_def)
  then have "map fst results = map (\<lambda>i. chunks ! i) best" by (simp add: comp_def)
  moreover have "distinct best" unfolding best_def by (simp add: distinct_sort_desc)
  moreover have "\<forall>i \<in> set best. i < length chunks"
    unfolding best_def by (auto simp: set_sort_desc dest: in_set_takeD)
  ultimately show ?thesis
    using assms(2) by (auto simp: distinct_map intro: inj_on_nth)
qed

text \<open>
  Claim C3 asks that a search with \<open>top_k\<close> above the number of chunks returns only
  the real pairs. The code does not: over the three chunks of the demo corpus and with
  \<open>top_k = 5\<close>, \<open>search\<close> returns five pairs, the last two being the last chunk of
  the collection with the padding score of the index.
\<close>

theorem EmbeddingRetriever_search_pads_short_index:
  "EmbeddingRetriever_init demo_encode demo_heap [0, 1, 2] = Inr demo_embedding
   \<and> EmbeddingRetriever_search demo_embedding ''dogs bark dogs'' 5 =
       Inr [(1, 1), (2, 4 / 5), (0, 0), (2, pad_score), (2, pad_score)]"
proof -
  have "EmbeddingRetriever_search demo_embedding ''dogs bark dogs'' 5 =
       Inr [(1, 1), (2, 4 / 5), (0, 0), (2, pad_score), (2, pad_score)]"
    by code_simp
  with demo_embedding_built show ?thesis by simp
qed

subsection \<open>Empty collections\<close>

text \<open>
  Claim C9. Building a retriever over an empty chunk list fails, for the lexical, the
  semantic and the hybrid retriever: the constructor returns an exception and no
  retriever.
\<close>

theorem init_empty_fails:
  "BM25Retriever_init weight h [] = Inl ZeroDivisionError
   \<and> EmbeddingRetriever_init encode h [] = Inl IndexError
   \<and> HybridRetriever_init weight encode h [] = Inl ZeroDivisionError"
  by (simp add: BM25Retriever_init_def BM25Okapi_def on_results_def EmbeddingRetriever_init_def
      HybridRetriever_init_def)

subsection \<open>The fusion dictionary\<close>

lemma keys_dict_set:
  "map fst (dict_set k v d) = (if k \<in> fst ` set d then map fst d else map fst d @ [k])"
proof (induction d)
  case Nil
  then show ?case by simp
next
  case (Cons kv d)
  obtain k' v' where kv: "kv = (k', v')" by (cases kv)
  show ?case
  proof (cases "k' = k")
    case True
    then show ?thesis by (simp add: kv)
  next
    case False
    then show ?thesis using Cons.IH by (simp add: kv)
  qed
qed

lemma key_set_dict_set: "fst ` set (dict_set k v d) = insert k (fst ` set d)"
proof -
  have "set (map fst (dict_set k v d)) = insert k (set (map fst d))"
    unfolding keys_dict_set by auto
  then show ?thesis by simp
qed

lemma map_of_dict_set: "map_of (dict_set k v d) = (map_of d)(k \<mapsto> v)"
  by (induction d) (auto simp: fun_eq_iff)

lemma filter_fresh:
  "c \<notin> set ys \<Longrightarrow> filter (\<lambda>a. a \<notin> insert c K) ys = filter (\<lambda>a. a \<notin> K) ys"
  by (intro filter_cong) auto

lemma first_index_Cons: "first_index (x # xs) c = (if x = c then 0 else Suc (first_index xs c))"
  by (simp add: first_index_def)

lemma keys_add_bm25:
  "distinct (map fst xs) \<Longrightarrow>
   map fst (add_bm25 rank xs d) = map fst d @ filter (\<lambda>c. c \<notin> fst ` set d) (map fst xs)"
proof (induction xs arbitrary: rank d)
  case Nil
  then show ?case by simp
next
  case (Cons x xs)
  obtain c s where x: "x = (c, s)" by (cases x)
  from Cons.prems x have c: "c \<notin> set (map fst xs)" and dist: "distinct (map fst xs)" by auto
  show ?case
    unfolding x add_bm25.simps Cons.IH[OF dist] key_set_dict_set filter_fresh[OF c] keys_dict_set
    by simp
qed

lemma map_of_add_bm25:
  "distinct (map fst xs) \<Longrightarrow>
   map_of (add_bm25 rank xs d) c =
     (if c \<in> set (map fst xs)
      then Some \<lparr>entry_chunk = c, bm25_rrf = rrf_score (rank + first_index (map fst xs) c),
                 embedding_rrf = 0\<rparr>
      else map_of d c)"
proof (induction xs arbitrary: rank d)
  case Nil
  then show ?case by simp
next
  case (Cons x xs)
  obtain c' s where x: "x = (c', s)" by (cases x)
  from Cons.prems x have c': "c' \<notin> set (map fst xs)" and dist: "distinct (map fst xs)" by auto
  show ?case
    using Cons.IH[OF dist] c' by (auto simp: x map_of_dict_set first_index_Cons)
qed

lemma keys_add_embedding:
  "distinct (map fst xs) \<Longrightarrow>
   map fst (add_embedding rank xs d) = map fst d @ filter (\<lambda>c. c \<notin> fst ` set d) (map fst xs)"
proof (induction xs arbitrary: rank d)
  case Nil
  then show ?case by simp
next
  case (Cons x xs)
  obtain c s where x: "x = (c, s)" by (cases x)
  from Cons.prems x have c: "c \<notin> set (map fst xs)" and dist: "distinct (map fst xs)" by auto
  show ?case
  proof (cases "map_of d c")
    case None
    show ?thesis
      unfolding x add_embedding.simps None option.case Cons.IH[OF dist] key_set_dict_set
        filter_fresh[OF c] keys_dict_set
      by simp
  next
    case (Some data)
    show ?thesis
      unfolding x add_embedding.simps Some option.case Cons.IH[OF dist] key_set_dict_set
        filter_fresh[OF c] keys_dict_set
      by simp
  qed
qed

lemma map_of_add_embedding:
  "distinct (map fst xs) \<Longrightarrow>
   map_of (add_embedding rank xs d) c =
     (if c \<in> set (map fst xs)
      then Some (case map_of d c of
                   Some data \<Rightarrow> data\<lparr>embedding_rrf := rrf_score (rank + first_index (map fst xs) c)\<rparr>
                 | None \<Rightarrow> \<lparr>entry_chunk = c, bm25_rrf = 0,
                             embedding_rrf = rrf_score (rank + first_index (map fst xs) c)\<rparr>)
      else map_of d c)"
proof (induction xs arbitrary: rank d)
  case Nil
  then show ?case by simp
next
  case (Cons x xs)
  obtain c' s where x: "x = (c', s)" by (cases x)
  from Cons.prems x have c': "c' \<notin> set (map fst xs)" and dist: "distinct (map fst xs)" by auto
  show ?case
    using Cons.IH[OF dist] c' by (auto simp: x map_of_dict_set first_index_Cons split: option.splits)
qed

lemma dict_items_by_key:
  "distinct (map fst d) \<Longrightarrow> map (\<lambda>(k, v). f v) d = map (\<lambda>k. f (the (map_of d k))) (map fst d)"
proof (induction d)
  case Nil
  then show ?case by simp
next
  case (Cons kv d)
  obtain k v where kv: "kv = (k, v)" by (cases kv)
  from Cons.prems kv have k: "k \<notin> set (map fst d)" and dist: "distinct (map fst d)" by auto
  have "map (\<lambda>k'. f (the (map_of ((k, v) # d) k'))) (map fst d) = map (\<lambda>k'. f (the (map_of d k'))) (map fst d)"
    using k by (intro map_cong) auto
  with Cons.IH[OF dist] show ?case by (simp add: kv)
qed

lemma rrf_contribution_position:
  "rrf_contribution candidates c =
     (if c \<in> set candidates then rrf_score (1 + first_index candidates c) else 0)"
  by (simp add: rrf_contribution_def rank_of_def rrf_score_def k_constant_def)

lemma hybrid_results_fused:
  assumes "distinct (map fst bm)" and "distinct (map fst em)"
  shows "hybrid_results alpha (add_embedding 1 em (add_bm25 1 bm [])) =
         map (\<lambda>c. (c, fused_score alpha (map fst bm) (map fst em) c))
             (map fst bm @ filter (\<lambda>c. c \<notin> set (map fst bm)) (map fst em))"
proof -
  let ?lexical = "add_bm25 1 bm []"
  let ?d = "add_embedding 1 em ?lexical"
  let ?keys = "map fst bm @ filter (\<lambda>c. c \<notin> set (map fst bm)) (map fst em)"
  have k0: "map fst ?lexical = map fst bm"
    unfolding keys_add_bm25[OF assms(1)] by simp
  have k0': "fst ` set ?lexical = set (map fst bm)"
    unfolding k0[symmetric] by simp
  have keys: "map fst ?d = ?keys"
    unfolding keys_add_embedding[OF assms(2)] k0 k0' ..
  have dist: "distinct (map fst ?d)"
    unfolding keys using assms by auto
  have entry: "(case the (map_of ?d c) of data \<Rightarrow>
                 (entry_chunk data,
                  float_add (float_mul alpha (embedding_rrf data))
                            (float_mul (float_sub 1 alpha) (bm25_rrf data))))
               = (c, fused_score alpha (map fst bm) (map fst em) c)"
    if "c \<in> set ?keys" for c
    using that
    by (auto simp: map_of_add_embedding[OF assms(2)] map_of_add_bm25[OF assms(1)]
        fused_score_def rrf_contribution_position)
  have "hybrid_results alpha ?d =
        map (\<lambda>k. case the (map_of ?d k) of data \<Rightarrow>
                 (entry_chunk data,
                  float_add (float_mul alpha (embedding_rrf data))
                            (float_mul (float_sub 1 alpha) (bm25_rrf data)))) (map fst ?d)"
    unfolding hybrid_results_def by (rule dict_items_by_key[OF dist])
  also have "\<dots> = map (\<lambda>c. (c, fused_score alpha (map fst bm) (map fst em) c)) ?keys"
    unfolding keys using entry by (intro map_cong) auto
  finally show ?thesis .
qed

text \<open>
  The rounding decides between scores that are equal as exact fractions. With
  \<open>alpha = 0.25\<close>, a chunk at semantic rank 10 and lexical rank 5 and a chunk at
  semantic rank 18 and lexical rank 3 both have the exact score 11/728; as floats
  the first score is one spacing above the second.
\<close>

lemma fused_score_rounding:
  "(1 / 4) * (1 / 70) + (1 - 1 / 4) * (1 / 65) = (11 / 728 :: real)
   \<and> (1 / 4) * (1 / 78) + (1 - 1 / 4) * (1 / 63) = (11 / 728 :: real)
   \<and> float_add (float_mul (1 / 4) (rrf_score 10)) (float_mul (float_sub 1 (1 / 4)) (rrf_score 5))
       = 8710258619969311 / 576460752303423488
   \<and> float_add (float_mul (1 / 4) (rrf_score 18)) (float_mul (float_sub 1 (1 / 4)) (rrf_score 3))
       = 8710258619969310 / 576460752303423488"
  by code_simp

subsection \<open>Reciprocal rank fusion\<close>

text \<open>
  Claim C1, as the code has it. When the two candidate lists hold no chunk twice,
  \<open>HybridRetriever.search\<close> returns the ranking of reciprocal rank fusion: every
  chunk of either candidate list once, whatever its fused score, zero included, with
  the score \<open>alpha\<close> times its semantic contribution plus \<open>1 - alpha\<close> times its
  lexical contribution, each contribution and each operation rounded to a float,
  sorted by that score, descending, ties in insertion order (the lexical list, then
  the chunks that only the semantic list has), cut to \<open>top_k\<close>.
\<close>

theorem HybridRetriever_search_rrf:
  assumes "BM25Retriever_search (hyb_bm25 r) query bm25_k = Inr lexical"
    and "EmbeddingRetriever_search (hyb_embedding r) query embedding_k = Inr semantic"
    and "distinct (map fst lexical)" and "distinct (map fst semantic)"
  shows "HybridRetriever_search r query top_k alpha bm25_k embedding_k =
         Inr (py_slice_to top_k (rrf_ranking alpha (map fst lexical) (map fst semantic)))"
  unfolding HybridRetriever_search_def assms(1,2) rrf_ranking_def sum.case
    hybrid_results_fused[OF assms(3,4)] ..

text \<open>
  The theorem of C1 on the demo corpus, with two candidates from each retriever. The
  scores are the float nearest 1/61 and half the float nearest 1/62.
\<close>

theorem HybridRetriever_search_rrf_witness:
  "BM25Retriever_search (hyb_bm25 demo_hybrid) ''dogs'' 2 = Inr [(1, 1), (0, 0)]
   \<and> EmbeddingRetriever_search (hyb_embedding demo_hybrid) ''dogs'' 2 = Inr [(1, 1), (2, 4 / 5)]
   \<and> distinct (map fst [(1::ref, 1::real), (0, 0)]) \<and> distinct (map fst [(1::ref, 1::real), (2, 4 / 5)])
   \<and> HybridRetriever_search demo_hybrid ''dogs'' 5 (1 / 2) 2 2 =
        Inr (py_slice_to 5 (rrf_ranking (1 / 2) [1, 0] [1, 2]))
   \<and> py_slice_to 5 (rrf_ranking (1 / 2) [1, 0] [1, 2]) =
        [(1, 4725088133634619 / 288230376151711744),
         (0, 1162219258676257 / 144115188075855872),
         (2, 1162219258676257 / 144115188075855872)]
   \<and> double_round (1 / 61) = 4725088133634619 / 288230376151711744
   \<and> double_round (1 / 62) = 1162219258676257 / 72057594037927936"
proof -
  have b: "BM25Retriever_search (hyb_bm25 demo_hybrid) ''dogs'' 2 = Inr [(1, 1), (0, 0)]"
    by code_simp
  have e: "EmbeddingRetriever_search (hyb_embedding demo_hybrid) ''dogs'' 2 = Inr [(1, 1), (2, 4 / 5)]"
    by code_simp
  have d1: "distinct (map fst [(1::ref, 1::real), (0, 0)])" by simp
  have d2: "distinct (map fst [(1::ref, 1::real), (2, 4 / 5)])" by simp
  have v: "py_slice_to 5 (rrf_ranking (1 / 2) [1, 0] [1, 2]) =
        [(1, 4725088133634619 / 288230376151711744),
         (0, 1162219258676257 / 144115188075855872),
         (2, 1162219258676257 / 144115188075855872)]"
    by code_simp
  have r1: "double_round (1 / 61) = 4725088133634619 / 288230376151711744" by code_simp
  have r2: "double_round (1 / 62) = 1162219258676257 / 72057594037927936" by code_simp
  note inst = HybridRetriever_search_rrf[OF b e d1 d2, of 5 "1 / 2", unfolded list.map fst_conv]
  from b e d1 d2 inst v r1 r2 show ?thesis by (intro conjI)
qed

text \<open>
  Claim C1 as stated keeps only the chunks with a fused score that is not zero. With
  \<open>alpha = 0\<close> and one candidate from each retriever, the lexical candidate is chunk
  1 and the semantic candidate is chunk 0: the fused score of chunk 0 is zero and the
  code returns it all the same.
\<close>

theorem HybridRetriever_search_zero_score_counterexample:
  "BM25Retriever_search (hyb_bm25 demo_hybrid) ''cats dogs dogs'' 1 = Inr [(1, 2)]
   \<and> EmbeddingRetriever_search (hyb_embedding demo_hybrid) ''cats dogs dogs'' 1 = Inr [(0, 1)]
   \<and> fused_score 0 [1] [0] 0 = 0
   \<and> HybridRetriever_search demo_hybrid ''cats dogs dogs'' 5 0 1 1 =
       Inr [(1, 4725088133634619 / 288230376151711744), (0, 0)]"
  by code_simp

text \<open>
  So the rounding decides the ranking. Twenty lexical candidates, chunks 0 to 19 in
  this order, the same chunks as semantic candidates with chunk 4 at rank 10 and chunk
  2 at rank 18, and \<open>alpha = 0.25\<close>: the fused score of chunk 4 is above the fused
  score of chunk 2, and the descending sort puts chunk 4 first, where the insertion
  order would put chunk 2 first if the two scores were equal.
\<close>

lemma fused_score_rounding_order:
  "fused_score (1 / 4)
     [0, 1, 2, 3, 4, 5, 6, 7, 8, 9, 10, 11, 12, 13, 14, 15, 16, 17, 18, 19]
     [0, 1, 3, 5, 6, 7, 8, 9, 10, 4, 11, 12, 13, 14, 15, 16, 17, 2, 18, 19] 2
   < fused_score (1 / 4)
     [0, 1, 2, 3, 4, 5, 6, 7, 8, 9, 10, 11, 12, 13, 14, 15, 16, 17, 18, 19]
     [0, 1, 3, 5, 6, 7, 8, 9, 10, 4, 11, 12, 13, 14, 15, 16, 17, 2, 18, 19] 4"
  by code_simp

subsection \<open>The two ends of the weight\<close>

text \<open>
  Over a collection without a repeated chunk and with \<open>embedding_k\<close> between 1 and
  the size of the collection, no candidate list holds a chunk twice, and the search
  of a hybrid retriever is the ranking of reciprocal rank fusion.
\<close>

lemma HybridRetriever_init_Inr:
  assumes "HybridRetriever_init weight encode h chunks = Inr r"
  shows "BM25Retriever_init weight h chunks = Inr (hyb_bm25 r)"
    and "EmbeddingRetriever_init encode h chunks = Inr (hyb_embedding r)"
  using assms by (auto simp: HybridRetriever_init_def split: sum.splits)

lemma HybridRetriever_search_built_rrf:
  assumes "HybridRetriever_init weight encode h chunks = Inr r" and "distinct chunks"
    and "0 < embedding_k" and "embedding_k \<le> int (length chunks)"
  shows "\<exists>lexical semantic.
           BM25Retriever_search (hyb_bm25 r) query bm25_k = Inr lexical
           \<and> EmbeddingRetriever_search (hyb_embedding r) query embedding_k = Inr semantic
           \<and> HybridRetriever_search r query top_k alpha bm25_k embedding_k =
               Inr (py_slice_to top_k (rrf_ranking alpha (map fst lexical) (map fst semantic)))"
proof -
  note built = HybridRetriever_init_Inr[OF assms(1)]
  obtain lexical where lexical: "BM25Retriever_search (hyb_bm25 r) query bm25_k = Inr lexical"
    using BM25Retriever_search_built[OF built(1)] by blast
  obtain semantic
    where semantic: "EmbeddingRetriever_search (hyb_embedding r) query embedding_k = Inr semantic"
    using EmbeddingRetriever_search_built[OF built(2) assms(3)] by (auto simp: Let_def)
  have d1: "distinct (map fst lexical)"
    by (rule BM25Retriever_search_distinct[OF built(1) assms(2) lexical])
  have d2: "distinct (map fst semantic)"
    by (rule EmbeddingRetriever_search_distinct[OF built(2) assms(2,3,4) semantic])
  have fused: "hybrid_results alpha (add_embedding 1 semantic (add_bm25 1 lexical [])) =
         map (\<lambda>c. (c, fused_score alpha (map fst lexical) (map fst semantic) c))
             (map fst lexical @ filter (\<lambda>c. c \<notin> set (map fst lexical)) (map fst semantic))"
    by (rule hybrid_results_fused[OF d1 d2])
  have "HybridRetriever_search r query top_k alpha bm25_k embedding_k =
               Inr (py_slice_to top_k (rrf_ranking alpha (map fst lexical) (map fst semantic)))"
    unfolding HybridRetriever_search_def lexical semantic rrf_ranking_def sum.case fused ..
  with lexical semantic show ?thesis by blast
qed

text \<open>
  Claim C4 asks that the ranking for \<open>alpha = 1\<close> is the ranking of
  \<open>search_embedding_only\<close>. Over the first two chunks of the demo corpus and with
  the default \<open>embedding_k = 20\<close>, the semantic retriever ranks chunk 1 first, and its
  answer is padded with eighteen more pairs of the last chunk, chunk 1. The loop over
  the semantic candidates writes the contribution of chunk 1 again at each of them, so
  chunk 1 ends with the contribution of rank 20, and the hybrid search ranks chunk 0
  first. The two scores are the floats nearest 1/62 and 1/80.
\<close>

theorem HybridRetriever_alpha_one_against_embedding_only:
  "HybridRetriever_init count_weight demo_encode demo_heap [0, 1] = Inr demo_hybrid_two
   \<and> search_embedding_only demo_hybrid_two ''dogs'' 5 =
       Inr [(1, 1), (0, 0), (1, pad_score), (1, pad_score), (1, pad_score)]
   \<and> EmbeddingRetriever_search (hyb_embedding demo_hybrid_two) ''dogs'' 20 =
       Inr ([(1, 1), (0, 0)] @ replicate 18 (1, pad_score))
   \<and> HybridRetriever_search demo_hybrid_two ''dogs'' 5 1 20 20 =
       Inr [(0, double_round (1 / 62)), (1, double_round (1 / 80))]
   \<and> double_round (1 / 62) = 1162219258676257 / 72057594037927936
   \<and> double_round (1 / 80) = 3602879701896397 / 288230376151711744"
proof -
  have a: "search_embedding_only demo_hybrid_two ''dogs'' 5 =
       Inr [(1, 1), (0, 0), (1, pad_score), (1, pad_score), (1, pad_score)]"
    by code_simp
  have b: "EmbeddingRetriever_search (hyb_embedding demo_hybrid_two) ''dogs'' 20 =
       Inr ([(1, 1), (0, 0)] @ replicate 18 (1, pad_score))"
    by code_simp
  have c: "HybridRetriever_search demo_hybrid_two ''dogs'' 5 1 20 20 =
       Inr [(0, double_round (1 / 62)), (1, double_round (1 / 80))]"
    by code_simp
  have d: "double_round (1 / 62) = 1162219258676257 / 72057594037927936" by code_simp
  have e: "double_round (1 / 80) = 3602879701896397 / 288230376151711744" by code_simp
  from demo_hybrid_two_built a b c d e show ?thesis by (intro conjI)
qed

end
